theory Spec2Isabelle
  imports Complex_Main "HOL-Library.Word" "HOL-Library.Sublist"
begin

section \<open>JavaScript values that reach the handlers of server.js\<close>

text \<open>
  A JavaScript string is a sequence of 16-bit code units. ASCII literals of the source
  are written \<open>js ''...''\<close>.
\<close>

type_synonym code_unit = "16 word"
type_synonym jsstring = "code_unit list"

definition js :: "string \<Rightarrow> jsstring" where
  "js s = map of_char s"

text \<open>
  Every value the handlers touch is born from JSON (a request body, the upstream's
  reply, the result of \<open>JSON.parse\<close>) or is \<open>undefined\<close>. A number is kept as the
  rational it denotes. The rounding of a number literal by \<open>JSON.parse\<close> is not
  modelled; the one product the source takes is rounded to binary64 (see
  \<open>Number_multiply\<close>). An object is its list of own
  properties in insertion order, one entry per key; that JavaScript enumerates
  integer-like keys first is not modelled, and no property read depends on it.
\<close>

datatype json =
    JNull
  | JBool bool
  | JNum rat
  | JStr jsstring
  | JArr "json list"
  | JObj "(jsstring \<times> json) list"

datatype jsval = Undefined | Val json

datatype js_error = TypeError | SyntaxError

fun ebind :: "'e + 'a \<Rightarrow> ('a \<Rightarrow> 'e + 'b) \<Rightarrow> 'e + 'b" where
  "ebind (Inl e) f = Inl e"
| "ebind (Inr x) f = f x"

definition digit :: "nat \<Rightarrow> code_unit" where
  "digit d = of_nat (48 + d)"

fun show_nat :: "nat \<Rightarrow> jsstring" where
  "show_nat n = (if n < 10 then [digit n] else show_nat (n div 10) @ [digit (n mod 10)])"

declare show_nat.simps [simp del]

text \<open>
  The own enumerable properties of a value, in the order the spread operator copies
  them: the members of an object, the elements of an array under their indices, the
  code units of a string under their indices, nothing for the other primitives.
\<close>

fun own_props :: "json \<Rightarrow> (jsstring \<times> json) list" where
  "own_props (JObj kvs) = kvs"
| "own_props (JArr xs) = zip (map show_nat [0..<length xs]) xs"
| "own_props (JStr s) = zip (map show_nat [0..<length s]) (map (\<lambda>c. JStr [c]) s)"
| "own_props _ = []"

text \<open>
  Property read \<open>v.k\<close> / \<open>v[k]\<close>. Reading a property of \<open>undefined\<close> or \<open>null\<close>
  throws a TypeError; a missing property reads as \<open>undefined\<close>. Arrays and strings also
  own \<open>length\<close>. Inherited properties are methods; the keys the source reads as data
  (\<open>candidates\<close>, \<open>0\<close>, \<open>content\<close>, \<open>parts\<close>, \<open>text\<close>, \<open>error\<close>, \<open>message\<close>,
  \<open>headline\<close>, \<open>summary\<close>, \<open>author\<close>, \<open>category\<close>, \<open>date\<close>, \<open>id\<close>, \<open>length\<close>)
  are not among them.
\<close>

fun js_length :: "json \<Rightarrow> jsval option" where
  "js_length (JArr xs) = Some (Val (JNum (of_nat (length xs))))"
| "js_length (JStr s) = Some (Val (JNum (of_nat (length s))))"
| "js_length _ = None"

fun js_get :: "jsval \<Rightarrow> jsstring \<Rightarrow> js_error + jsval" where
  "js_get Undefined k = Inl TypeError"
| "js_get (Val JNull) k = Inl TypeError"
| "js_get (Val v) k =
     (case (if k = js ''length'' then js_length v else None) of
        Some n \<Rightarrow> Inr n
      | None \<Rightarrow> (case map_of (own_props v) k of
                   None \<Rightarrow> Inr Undefined
                 | Some x \<Rightarrow> Inr (Val x)))"

text \<open>\<open>obj[k] = v\<close> on a property list: overwrite in place, or append a new key.\<close>

fun set_prop :: "(jsstring \<times> json) list \<Rightarrow> jsstring \<Rightarrow> json \<Rightarrow> (jsstring \<times> json) list" where
  "set_prop [] k v = [(k, v)]"
| "set_prop ((k', v') # kvs) k v =
     (if k' = k then (k, v) # kvs else (k', v') # set_prop kvs k v)"

text \<open>The object literal \<open>{ k: v, ...source }\<close>: the named key first, then the spread.\<close>

definition spread_into :: "(jsstring \<times> json) list \<Rightarrow> json \<Rightarrow> json" where
  "spread_into kvs source = JObj (foldl (\<lambda>acc (k, v). set_prop acc k v) kvs (own_props source))"

text \<open>Truthiness, as \<open>||\<close> and \<open>!\<close> test it.\<close>

fun truthy :: "jsval \<Rightarrow> bool" where
  "truthy Undefined = False"
| "truthy (Val JNull) = False"
| "truthy (Val (JBool b)) = b"
| "truthy (Val (JNum r)) = (r \<noteq> 0)"
| "truthy (Val (JStr s)) = (s \<noteq> [])"
| "truthy (Val _) = True"


section \<open>The platform\<close>

text \<open>
  Built-ins of the JavaScript platform that the handlers call and that are not code of
  this repository are parameters: \<open>JSON.parse\<close> (\<open>None\<close> when it throws a SyntaxError),
  the rendering of a number in a template literal, and
  \<open>new Date(v).toUTCString()\<close> for a primitive \<open>v\<close>.
\<close>

record platform =
  JSON_parse :: "jsstring \<Rightarrow> json option"
  Number_toString :: "rat \<Rightarrow> jsstring"
  Date_toUTCString :: "jsval \<Rightarrow> jsstring"

text \<open>
  \<open>ToString\<close>, as a template literal applies it to a substitution. An array joins its
  elements with commas (\<open>null\<close> prints as the empty string); an object prints as
  \<open>[object Object]\<close> unless an own property shadows \<open>toString\<close>, which in a JSON-born
  object is never callable, so the conversion throws a TypeError.
\<close>

fun to_string :: "platform \<Rightarrow> json \<Rightarrow> js_error + jsstring"
  and join_elems :: "platform \<Rightarrow> json list \<Rightarrow> js_error + jsstring" where
  "to_string P JNull = Inr (js ''null'')"
| "to_string P (JBool b) = Inr (if b then js ''true'' else js ''false'')"
| "to_string P (JNum r) = Inr (Number_toString P r)"
| "to_string P (JStr s) = Inr s"
| "to_string P (JArr xs) = join_elems P xs"
| "to_string P (JObj kvs) =
     (if js ''toString'' \<in> fst ` set kvs then Inl TypeError else Inr (js ''[object Object]''))"
| "join_elems P [] = Inr []"
| "join_elems P (x # xs) =
     ebind (if x = JNull then Inr [] else to_string P x) (\<lambda>s.
       if xs = [] then Inr s
       else ebind (join_elems P xs) (\<lambda>r. Inr (s @ js '','' @ r)))"

fun ToString :: "platform \<Rightarrow> jsval \<Rightarrow> js_error + jsstring" where
  "ToString P Undefined = Inr (js ''undefined'')"
| "ToString P (Val v) = to_string P v"


section \<open>The world outside the process\<close>

text \<open>
  What \<open>fetch\<close> does with a request: it rejects (a transport failure), or resolves
  with a response, of which the handler reads \<open>response.ok\<close> and the outcome of
  \<open>response.json()\<close> (the parsed body, or a rejection).
\<close>

datatype fetch_outcome =
    Rejected js_error
  | Response bool "js_error + json"

text \<open>
  The lines written with \<open>console.log\<close>. The text of an Error's message is the
  platform's and is not modelled; its kind is.
\<close>

datatype log_entry =
    Trying jsstring
  | Failed jsstring jsstring
  | Success jsstring
  | Errored jsstring js_error

text \<open>
  The world is passed explicitly. \<open>upstream w k model prompt\<close> is the outcome of the
  \<open>k\<close>-th call of \<open>fetch\<close>, made for \<open>model\<close> with \<open>prompt\<close>; \<open>requests\<close>
  lists the calls made so far as (model, prompt): the URL of a call is a fixed text
  around the model identifier and the key, its body a fixed object around the prompt
  with temperature 1.0 and maxOutputTokens 2048. \<open>clock w k\<close> is the \<open>k\<close>-th
  reading of the clock in milliseconds, \<open>randoms w k\<close> the \<open>k\<close>-th result of
  \<open>Math.random()\<close>.
\<close>

record world =
  upstream :: "nat \<Rightarrow> jsstring \<Rightarrow> jsstring \<Rightarrow> fetch_outcome"
  requests :: "(jsstring \<times> jsstring) list"
  console :: "log_entry list"
  clock :: "nat \<Rightarrow> int"
  ticks :: nat
  randoms :: "nat \<Rightarrow> rat"
  draws :: nat

definition fetch :: "jsstring \<Rightarrow> jsstring \<Rightarrow> world \<Rightarrow> fetch_outcome \<times> world" where
  "fetch model prompt w =
     (upstream w (length (requests w)) model prompt,
      w\<lparr>requests := requests w @ [(model, prompt)]\<rparr>)"

definition console_log :: "log_entry \<Rightarrow> world \<Rightarrow> world" where
  "console_log e w = w\<lparr>console := console w @ [e]\<rparr>"

definition Date_now :: "world \<Rightarrow> int \<times> world" where
  "Date_now w = (clock w (ticks w), w\<lparr>ticks := Suc (ticks w)\<rparr>)"

definition Math_random :: "world \<Rightarrow> rat \<times> world" where
  "Math_random w = (randoms w (draws w), w\<lparr>draws := Suc (draws w)\<rparr>)"


section \<open>Extraction of the article array from the generated text\<close>

text \<open>
  \<open>text.match(/```json\n([\s\S]*?)\n```/)\<close>: the engine tries each start position
  from the left; at a position where the opener matches, the lazy group takes the
  shortest run of code units after which the closer matches. \<open>lazy_until\<close> is the
  group followed by the closer, \<open>fence_match\<close> the whole expression; both return the
  captured group.
\<close>

fun lazy_until :: "'a list \<Rightarrow> 'a list \<Rightarrow> 'a list option" where
  "lazy_until closer [] = (if closer = [] then Some [] else None)"
| "lazy_until closer (x # xs) =
     (if prefix closer (x # xs) then Some []
      else map_option ((#) x) (lazy_until closer xs))"

text \<open>\<open>occurs p s\<close>: the text \<open>p\<close> occurs somewhere in \<open>s\<close>.\<close>

fun occurs :: "'a list \<Rightarrow> 'a list \<Rightarrow> bool" where
  "occurs p [] = (p = [])"
| "occurs p (x # xs) = (prefix p (x # xs) \<or> occurs p xs)"

fun fence_match :: "'a list \<Rightarrow> 'a list \<Rightarrow> 'a list \<Rightarrow> 'a list option" where
  "fence_match opener closer [] =
     (if opener = [] then lazy_until closer [] else None)"
| "fence_match opener closer (x # xs) =
     (case (if prefix opener (x # xs)
            then lazy_until closer (drop (length opener) (x # xs)) else None) of
        Some c \<Rightarrow> Some c
      | None \<Rightarrow> fence_match opener closer xs)"

definition fence_json :: jsstring where
  "fence_json = js ''```json\<newline>''"

definition fence_plain :: jsstring where
  "fence_plain = js ''```\<newline>''"

definition fence_close :: jsstring where
  "fence_close = js ''\<newline>```''"

definition jsonMatch :: "jsstring \<Rightarrow> jsstring option" where
  "jsonMatch generatedText =
     (case fence_match fence_json fence_close generatedText of
        Some c \<Rightarrow> Some c
      | None \<Rightarrow> fence_match fence_plain fence_close generatedText)"

definition jsonText :: "jsstring \<Rightarrow> jsstring" where
  "jsonText generatedText =
     (case jsonMatch generatedText of Some c \<Rightarrow> c | None \<Rightarrow> generatedText)"

text \<open>
  \<open>articles.map((article, index) => ({ id: Date.now() + index, ...article }))\<close>:
  the callback reads the clock once per element; the spread comes after \<open>id\<close>.
  A time value is at most \<open>8.64e15\<close> in magnitude and an index is below
  \<open>2^32\<close>, so the sum is exact in binary64 and is taken as an integer here.
\<close>

fun map_ids :: "nat \<Rightarrow> json list \<Rightarrow> world \<Rightarrow> json list \<times> world" where
  "map_ids index [] w = ([], w)"
| "map_ids index (article # rest) w =
     (let (now, w1) = Date_now w;
          obj = spread_into [(js ''id'', JNum (of_int now + of_nat index))] article;
          (objs, w2) = map_ids (Suc index) rest w1
      in (obj # objs, w2))"

definition articlesWithIds :: "json \<Rightarrow> world \<Rightarrow> (js_error + json list) \<times> world" where
  "articlesWithIds articles w =
     (case articles of
        JArr xs \<Rightarrow> (let (objs, w') = map_ids 0 xs w in (Inr objs, w'))
      | _ \<Rightarrow> (Inl TypeError, w))"

text \<open>
  The Extractor: the fence search and \<open>JSON.parse\<close> give \<open>articles\<close>; then comes
  the map that only an array has. A value that is not an array has no callable
  \<open>map\<close>, so the call throws.
\<close>

definition parse_articles :: "platform \<Rightarrow> jsstring \<Rightarrow> json option" where
  "parse_articles P generatedText = JSON_parse P (jsonText generatedText)"

definition extract_json :: "platform \<Rightarrow> jsstring \<Rightarrow> world \<Rightarrow> (js_error + json list) \<times> world" where
  "extract_json P generatedText w =
     (case parse_articles P generatedText of
        None \<Rightarrow> (Inl SyntaxError, w)
      | Some articles \<Rightarrow> articlesWithIds articles w)"


section \<open>The fallback loop of /api/generate-news\<close>

record response =
  status :: nat
  body :: json

text \<open>\<open>data.candidates[0].content.parts[0].text\<close>\<close>

definition generatedText_of :: "json \<Rightarrow> js_error + jsval" where
  "generatedText_of data =
     ebind (js_get (Val data) (js ''candidates'')) (\<lambda>c.
     ebind (js_get c (js ''0'')) (\<lambda>c0.
     ebind (js_get c0 (js ''content'')) (\<lambda>ct.
     ebind (js_get ct (js ''parts'')) (\<lambda>ps.
     ebind (js_get ps (js ''0'')) (\<lambda>p0.
     js_get p0 (js ''text''))))))"

text \<open>\<open>data.error?.message\<close>\<close>

definition error_message :: "json \<Rightarrow> js_error + jsval" where
  "error_message data =
     ebind (js_get (Val data) (js ''error'')) (\<lambda>e.
       if e = Undefined \<or> e = Val JNull then Inr Undefined
       else js_get e (js ''message''))"

text \<open>
  The body of the \<open>try\<close> block for one model: \<open>Inl\<close> is a throw, \<open>Inr None\<close> the
  \<open>continue\<close> of a non-success status, \<open>Inr (Some r)\<close> the \<open>return res.json(...)\<close>.
  \<open>on_failure\<close> is the branch of \<open>!response.ok\<close>, whose log line is built before
  it is written; \<open>on_success\<close> is the rest of the block, where calling \<open>match\<close> on
  a value that is not a string throws.
\<close>

definition on_failure ::
  "platform \<Rightarrow> jsstring \<Rightarrow> json \<Rightarrow> world \<Rightarrow> (js_error + response option) \<times> world" where
  "on_failure P model data w =
     (case ebind (error_message data) (ToString P) of
        Inl e \<Rightarrow> (Inl e, w)
      | Inr msg \<Rightarrow> (Inr None, console_log (Failed model msg) w))"

definition on_success ::
  "platform \<Rightarrow> jsstring \<Rightarrow> json \<Rightarrow> world \<Rightarrow> (js_error + response option) \<times> world" where
  "on_success P model data w =
     (let w3 = console_log (Success model) w
      in case generatedText_of data of
           Inr (Val (JStr generatedText)) \<Rightarrow>
             (case extract_json P generatedText w3 of
                (Inl e, w4) \<Rightarrow> (Inl e, w4)
              | (Inr objs, w4) \<Rightarrow> (Inr (Some \<lparr>status = 200, body = JArr objs\<rparr>), w4))
         | Inr _ \<Rightarrow> (Inl TypeError, w3)
         | Inl e \<Rightarrow> (Inl e, w3))"

definition try_body ::
  "platform \<Rightarrow> jsstring \<Rightarrow> jsstring \<Rightarrow> world \<Rightarrow> (js_error + response option) \<times> world" where
  "try_body P prompt model w =
     (let w1 = console_log (Trying model) w;
          (out, w2) = fetch model prompt w1
      in case out of
           Rejected e \<Rightarrow> (Inl e, w2)
         | Response ok parsed \<Rightarrow>
             (case parsed of
                Inl e \<Rightarrow> (Inl e, w2)
              | Inr data \<Rightarrow>
                  if \<not> ok then on_failure P model data w2
                  else on_success P model data w2))"

text \<open>The \<open>catch\<close>: log the error and go on to the next model.\<close>

definition attempt ::
  "platform \<Rightarrow> jsstring \<Rightarrow> jsstring \<Rightarrow> world \<Rightarrow> response option \<times> world" where
  "attempt P prompt model w =
     (case try_body P prompt model w of
        (Inl e, w') \<Rightarrow> (None, console_log (Errored model e) w')
      | (Inr r, w') \<Rightarrow> (r, w'))"

definition all_failed :: response where
  "all_failed =
     \<lparr>status = 500,
      body = JObj [(js ''error'', JStr (js ''Failed to generate news with any available model'')),
                   (js ''details'',
                    JStr (js ''All Gemini models failed. Please check your API key and quota.''))]\<rparr>"

text \<open>\<open>for (const model of models) { try { ... } catch { continue } }\<close>, then the 500.\<close>

fun try_models ::
  "platform \<Rightarrow> jsstring \<Rightarrow> jsstring list \<Rightarrow> world \<Rightarrow> response \<times> world" where
  "try_models P prompt [] w = (all_failed, w)"
| "try_models P prompt (model # rest) w =
     (case attempt P prompt model w of
        (Some r, w') \<Rightarrow> (r, w')
      | (None, w') \<Rightarrow> try_models P prompt rest w')"


section \<open>Binary64 multiplication\<close>

text \<open>
  A JavaScript number is a binary64 value, and \<open>a * b\<close> is the exact product
  rounded to the nearest binary64 value, a tie going to the even significand. A value
  is kept as the rational it denotes. \<open>binade x\<close> is the exponent \<open>e\<close> with
  \<open>2^e \<le> x < 2^(e+1)\<close> of a positive \<open>x\<close>; a binary64 value of that binade is a
  multiple of \<open>2^(e-52)\<close>, and below \<open>2^-1022\<close> the spacing stays \<open>2^-1074\<close>.
  Overflow to \<open>Infinity\<close>, from \<open>2^1024\<close> on, is not modelled; the only product of
  the source is below 8.
\<close>

fun bit_length :: "nat \<Rightarrow> nat" where
  "bit_length n = (if n = 0 then 0 else Suc (bit_length (n div 2)))"

declare bit_length.simps [simp del]

definition binade :: "rat \<Rightarrow> int" where
  "binade x =
     (if 1 \<le> x then int (bit_length (nat \<lfloor>x\<rfloor>)) - 1
      else - int (bit_length (nat (\<lceil>1 / x\<rceil> - 1))))"

definition round_half_even :: "rat \<Rightarrow> int" where
  "round_half_even y =
     (let f = \<lfloor>y\<rfloor>; d = y - of_int f
      in if d < 1 / 2 then f else if 1 / 2 < d then f + 1 else if even f then f else f + 1)"

definition round64 :: "rat \<Rightarrow> rat" where
  "round64 x =
     (if x = 0 then 0
      else (let a = \<bar>x\<bar>; e = max (binade a) (- 1022); u = 2 powi (e - 52)
            in sgn x * of_int (round_half_even (a / u)) * u))"

definition Number_multiply :: "rat \<Rightarrow> rat \<Rightarrow> rat" where
  "Number_multiply a b = round64 (a * b)"


section \<open>The handler of /api/generate-news\<close>

text \<open>
  The request body, typed as the interface gives it: a category string and an optional
  numeric count (\<open>count = 3\<close> when absent).
\<close>

record gen_request =
  req_category :: jsstring
  req_count :: "rat option"

definition categories :: "jsstring list" where
  "categories = [js ''politics'', js ''technology'', js ''lifestyle'', js ''business'', js ''cricket'']"

text \<open>
  \<open>category === 'random' ? categories[Math.floor(Math.random() * categories.length)]
  : category\<close>. The product is the binary64 product; \<open>Math.floor\<close> is exact; an
  index outside the array reads as \<open>undefined\<close> (\<open>None\<close>).
\<close>

definition selectedCategory :: "jsstring \<Rightarrow> world \<Rightarrow> jsstring option \<times> world" where
  "selectedCategory category w =
     (if category = js ''random'' then
        (let (r, w') = Math_random w;
             i = \<lfloor>Number_multiply r (of_nat (length categories))\<rfloor>
         in (if 0 \<le> i \<and> nat i < length categories then Some (categories ! nat i) else None, w'))
      else (Some category, w))"

definition category_text :: "jsstring option \<Rightarrow> jsstring" where
  "category_text c = (case c of None \<Rightarrow> js ''undefined'' | Some s \<Rightarrow> s)"

text \<open>The template literal of the prompt, with the texts of its two substitutions.\<close>

definition prompt :: "jsstring \<Rightarrow> jsstring \<Rightarrow> jsstring" where
  \<open>prompt count category =
     js ''Generate '' @ count @
     js '' satirical news headlines in The Onion style, focused on India. \<newline>Category: '' @
     category @
     js ''\<newline>\<newline>Each article should be absurd, funny, and exaggerated but grounded in Indian context (cities, culture, work life, etc.).\<newline>\<newline>Return ONLY a JSON array with this exact structure:\<newline>[\<newline>  {\<newline>    "category": "'' @
     category @
     js ''",\<newline>    "headline": "Funny satirical headline",\<newline>    "summary": "One sentence summary of the absurd story",\<newline>    "author": "Indian name",\<newline>    "date": "Oct 19, 2025"\<newline>  }\<newline>]\<newline>\<newline>Make sure headlines are witty and reference Indian culture, cities, daily life, or current trends. Be creative and absurd!''\<close>

text \<open>The model lists: the one of server.js, and the one of the version with the cache.\<close>

definition models_server_js :: "jsstring list" where
  "models_server_js =
     [js ''gemini-1.5-flash'', js ''gemini-1.5-flash-latest'', js ''gemini-1.5-pro'',
      js ''gemini-1.5-pro-latest'', js ''gemini-pro'', js ''gemini-1.0-pro'']"

definition models :: "jsstring list" where
  "models =
     [js ''gemini-2.5-flash'', js ''gemini-2.0-flash'', js ''gemini-flash-latest'',
      js ''gemini-pro-latest'', js ''gemini-2.5-pro'', js ''gemini-pro'']"

definition not_configured :: response where
  "not_configured =
     \<lparr>status = 503, body = JObj [(js ''error'', JStr (js ''Gemini API key not configured''))]\<rparr>"

text \<open>
  The handler, over the model list it iterates. \<open>!GEMINI_API_KEY\<close> holds of an unset
  and of an empty key.
\<close>

definition generate_news ::
  "platform \<Rightarrow> jsstring list \<Rightarrow> jsstring option \<Rightarrow> gen_request \<Rightarrow> world \<Rightarrow> response \<times> world" where
  "generate_news P model_list GEMINI_API_KEY req w =
     (if GEMINI_API_KEY = None \<or> GEMINI_API_KEY = Some [] then (not_configured, w)
      else
        (let count = (case req_count req of None \<Rightarrow> 3 | Some c \<Rightarrow> c);
             (selected, w1) = selectedCategory (req_category req) w
         in try_models P (prompt (Number_toString P count) (category_text selected)) model_list w1))"


section \<open>The article cache\<close>

text \<open>
  The process-wide variable \<open>cachedArticles\<close> is passed in and returned.
  \<open>GET /api/articles\<close> sends it; \<open>POST /api/update-cache\<close> stores
  \<open>articles || []\<close> and answers with the new \<open>length\<close>, a property that
  \<open>res.json\<close> leaves out when it is \<open>undefined\<close>.
\<close>

definition get_articles :: "json \<Rightarrow> json" where
  "get_articles cachedArticles = cachedArticles"

definition update_cache :: "jsval \<Rightarrow> json \<Rightarrow> response \<times> json" where
  "update_cache articles cachedArticles =
     (let cachedArticles' = (case articles of
                               Val v \<Rightarrow> if truthy articles then v else JArr []
                             | Undefined \<Rightarrow> JArr [])
      in (\<lparr>status = 200,
           body = JObj ((js ''success'', JBool True) #
                        (case js_get (Val cachedArticles') (js ''length'') of
                           Inr (Val n) \<Rightarrow> [(js ''count'', n)]
                         | _ \<Rightarrow> []))\<rparr>,
          cachedArticles'))"


section \<open>The RSS feed\<close>

definition baseUrl :: "jsstring \<Rightarrow> jsstring option \<Rightarrow> jsstring" where
  "baseUrl protocol host =
     protocol @ js ''://'' @ (case host of None \<Rightarrow> js ''undefined'' | Some h \<Rightarrow> h)"

text \<open>
  \<open>new Date(v).toUTCString()\<close>: an object or array is first converted to a primitive,
  which is its string (or a TypeError, as for \<open>ToString\<close>).
\<close>

fun to_primitive :: "platform \<Rightarrow> jsval \<Rightarrow> js_error + jsval" where
  "to_primitive P (Val (JArr xs)) = ebind (to_string P (JArr xs)) (\<lambda>s. Inr (Val (JStr s)))"
| "to_primitive P (Val (JObj kvs)) = ebind (to_string P (JObj kvs)) (\<lambda>s. Inr (Val (JStr s)))"
| "to_primitive P v = Inr v"

definition pubDate :: "platform \<Rightarrow> jsval \<Rightarrow> js_error + jsstring" where
  "pubDate P v = ebind (to_primitive P v) (\<lambda>p. Inr (Date_toUTCString P p))"

definition field :: "platform \<Rightarrow> json \<Rightarrow> jsstring \<Rightarrow> js_error + jsstring" where
  "field P article k = ebind (js_get (Val article) k) (ToString P)"

definition rss_item :: "platform \<Rightarrow> jsstring \<Rightarrow> json \<Rightarrow> js_error + jsstring" where
  \<open>rss_item P base article =
     ebind (field P article (js ''headline'')) (\<lambda>headline.
     ebind (field P article (js ''summary'')) (\<lambda>summary.
     ebind (field P article (js ''author'')) (\<lambda>author.
     ebind (field P article (js ''category'')) (\<lambda>category.
     ebind (ebind (js_get (Val article) (js ''date'')) (pubDate P)) (\<lambda>date.
     ebind (field P article (js ''id'')) (\<lambda>ident.
     Inr (js ''\<newline>    <item>\<newline>      <title><![CDATA['' @ headline @
          js '']]></title>\<newline>      <description><![CDATA['' @ summary @
          js '']]></description>\<newline>      <author>'' @ author @
          js ''</author>\<newline>      <category>'' @ category @
          js ''</category>\<newline>      <pubDate>'' @ date @
          js ''</pubDate>\<newline>      <guid isPermaLink="false">'' @ base @
          js ''/#article-'' @ ident @
          js ''</guid>\<newline>    </item>'')))))))\<close>

text \<open>\<open>Array.prototype.map\<close> with a callback that may throw, and \<open>join\<close>.\<close>

fun map_err :: "('a \<Rightarrow> 'e + 'b) \<Rightarrow> 'a list \<Rightarrow> 'e + 'b list" where
  "map_err f [] = Inr []"
| "map_err f (x # xs) = ebind (f x) (\<lambda>y. ebind (map_err f xs) (\<lambda>ys. Inr (y # ys)))"

fun join_with :: "'a list \<Rightarrow> 'a list list \<Rightarrow> 'a list" where
  "join_with sep [] = []"
| "join_with sep [x] = x"
| "join_with sep (x # y # ys) = x @ sep @ join_with sep (y # ys)"

text \<open>
  \<open>cachedArticles.slice(0, 20).map(article => ...)\<close>: only an array has both
  methods; on any other cached value the call throws.
\<close>

definition rss_item_list :: "platform \<Rightarrow> jsstring \<Rightarrow> json \<Rightarrow> js_error + jsstring list" where
  "rss_item_list P base cachedArticles =
     (case cachedArticles of
        JArr xs \<Rightarrow> map_err (rss_item P base) (take 20 xs)
      | _ \<Rightarrow> Inl TypeError)"

definition rssItems :: "platform \<Rightarrow> jsstring \<Rightarrow> json \<Rightarrow> js_error + jsstring" where
  "rssItems P base cachedArticles =
     ebind (rss_item_list P base cachedArticles) (\<lambda>items. Inr (join_with (js ''\<newline>'') items))"

definition rssFeed ::
  "platform \<Rightarrow> jsstring \<Rightarrow> jsstring option \<Rightarrow> json \<Rightarrow> world \<Rightarrow> (js_error + jsstring) \<times> world" where
  \<open>rssFeed P protocol host cachedArticles w =
     (let base = baseUrl protocol host
      in case rssItems P base cachedArticles of
           Inl e \<Rightarrow> (Inl e, w)
         | Inr items \<Rightarrow>
             (let (now, w') = Date_now w
              in (Inr (js ''<?xml version="1.0" encoding="UTF-8"?>\<newline><rss version="2.0" xmlns:atom="http://www.w3.org/2005/Atom">\<newline>  <channel>\<newline>    <title>The Briefing - India's Finest Satirical News</title>\<newline>    <link>'' @ base @
                      js ''</link>\<newline>    <description>Absurd, satirical news about India that will make you laugh and question reality</description>\<newline>    <language>en-in</language>\<newline>    <lastBuildDate>'' @
                      Date_toUTCString P (Val (JNum (of_int now))) @
                      js ''</lastBuildDate>\<newline>    <atom:link href="'' @ base @
                      js ''/rss" rel="self" type="application/rss+xml"/>\<newline>    '' @ items @
                      js ''\<newline>  </channel>\<newline></rss>''), w')))\<close>


section \<open>A reference platform\<close>

text \<open>
  A parser for the JSON grammar (ECMA-404), the grammar \<open>JSON.parse\<close> accepts,
  to run the handlers on concrete texts. It is a lexer followed by a stack machine
  over the tokens. A number is read exactly; of two members with the same key the
  later value stays, at the first one's place.
\<close>

definition is_ws :: "code_unit \<Rightarrow> bool" where
  "is_ws c = (c = 0x20 \<or> c = 0x09 \<or> c = 0x0A \<or> c = 0x0D)"

definition is_digit :: "code_unit \<Rightarrow> bool" where
  "is_digit c = (0x30 \<le> c \<and> c \<le> 0x39)"

definition hex_val :: "code_unit \<Rightarrow> nat option" where
  "hex_val c =
     (if 0x30 \<le> c \<and> c \<le> 0x39 then Some (unat c - 0x30)
      else if 0x41 \<le> c \<and> c \<le> 0x46 then Some (unat c - 0x41 + 10)
      else if 0x61 \<le> c \<and> c \<le> 0x66 then Some (unat c - 0x61 + 10)
      else None)"

definition hex4 :: "code_unit \<Rightarrow> code_unit \<Rightarrow> code_unit \<Rightarrow> code_unit \<Rightarrow> code_unit option" where
  "hex4 a b c d =
     (case (hex_val a, hex_val b, hex_val c, hex_val d) of
        (Some x, Some y, Some z, Some u) \<Rightarrow> Some (of_nat (((x * 16 + y) * 16 + z) * 16 + u))
      | _ \<Rightarrow> None)"

definition escape :: "code_unit \<Rightarrow> code_unit option" where
  "escape e =
     (if e = 0x22 \<or> e = 0x5C \<or> e = 0x2F then Some e
      else if e = 0x62 then Some 0x08
      else if e = 0x66 then Some 0x0C
      else if e = 0x6E then Some 0x0A
      else if e = 0x72 then Some 0x0D
      else if e = 0x74 then Some 0x09
      else None)"

text \<open>
  \<open>string_end cs\<close>: the number of code units of a string literal after its opening
  quote, up to and including the closing quote. \<open>decode_string\<close> reads the
  characters between the quotes.
\<close>

fun string_end :: "jsstring \<Rightarrow> nat option" where
  "string_end [] = None"
| "string_end [c] = (if c = 0x22 then Some 1 else None)"
| "string_end (c # d # cs) =
     (if c = 0x22 then Some 1
      else if c = 0x5C then map_option (\<lambda>n. n + 2) (string_end cs)
      else map_option Suc (string_end (d # cs)))"

fun decode_string :: "jsstring \<Rightarrow> jsstring option" where
  "decode_string [] = Some []"
| "decode_string (c # cs) =
     (if c = 0x5C then
        (case cs of
           [] \<Rightarrow> None
         | e # es \<Rightarrow>
             if e = 0x75 then
               (case es of
                  h1 # h2 # h3 # h4 # r \<Rightarrow>
                    (case hex4 h1 h2 h3 h4 of
                       None \<Rightarrow> None
                     | Some u \<Rightarrow> map_option ((#) u) (decode_string r))
                | _ \<Rightarrow> None)
             else
               (case escape e of
                  None \<Rightarrow> None
                | Some u \<Rightarrow> map_option ((#) u) (decode_string es)))
      else if c < 0x20 \<or> c = 0x22 then None
      else map_option ((#) c) (decode_string cs))"

definition digits_val :: "jsstring \<Rightarrow> nat" where
  "digits_val ds = foldl (\<lambda>a c. 10 * a + (unat c - 0x30)) 0 ds"

text \<open>
  A number literal: \<open>-? (0 | [1-9][0-9]*) (. [0-9]+)? ([eE] [+-]? [0-9]+)?\<close>,
  the whole lexeme.
\<close>

definition parse_exponent :: "jsstring \<Rightarrow> int option" where
  "parse_exponent s =
     (case s of
        [] \<Rightarrow> Some 0
      | c # cs \<Rightarrow>
          if c = 0x65 \<or> c = 0x45 then
            (let (neg, ds) = (case cs of
                                [] \<Rightarrow> (False, [])
                              | d # ds' \<Rightarrow> if d = 0x2D then (True, ds')
                                          else if d = 0x2B then (False, ds') else (False, cs))
             in if ds = [] \<or> \<not> list_all is_digit ds then None
                else Some (if neg then - int (digits_val ds) else int (digits_val ds)))
          else None)"

definition parse_number :: "jsstring \<Rightarrow> rat option" where
  "parse_number s =
     (let (neg, s1) = (case s of
                         [] \<Rightarrow> (False, [])
                       | c # cs \<Rightarrow> if c = 0x2D then (True, cs) else (False, s));
          ip = takeWhile is_digit s1;
          s2 = dropWhile is_digit s1;
          (fp, s3) = (case s2 of
                        [] \<Rightarrow> (Some [], [])
                      | c # cs \<Rightarrow>
                          if c = 0x2E
                          then (if takeWhile is_digit cs = [] then None
                                else Some (takeWhile is_digit cs), dropWhile is_digit cs)
                          else (Some [], s2))
      in if ip = [] \<or> (length ip > 1 \<and> hd ip = 0x30) then None
         else case (fp, parse_exponent s3) of
                (Some fd, Some e) \<Rightarrow>
                  (let m = of_nat (digits_val (ip @ fd)) :: rat;
                       x = int (length fd) - e;
                       v = (if x \<ge> 0 then m / 10 ^ nat x else m * 10 ^ nat (- x))
                   in Some (if neg then - v else v))
              | _ \<Rightarrow> None)"

definition is_number_unit :: "code_unit \<Rightarrow> bool" where
  "is_number_unit c =
     (is_digit c \<or> c = 0x2D \<or> c = 0x2B \<or> c = 0x2E \<or> c = 0x65 \<or> c = 0x45)"

datatype token =
    TLBracket | TRBracket | TLBrace | TRBrace | TComma | TColon
  | TValue json

fun lex :: "jsstring \<Rightarrow> token list option" where
  "lex [] = Some []"
| "lex (c # cs) =
     (if is_ws c then lex cs
      else if c = 0x5B then map_option ((#) TLBracket) (lex cs)
      else if c = 0x5D then map_option ((#) TRBracket) (lex cs)
      else if c = 0x7B then map_option ((#) TLBrace) (lex cs)
      else if c = 0x7D then map_option ((#) TRBrace) (lex cs)
      else if c = 0x2C then map_option ((#) TComma) (lex cs)
      else if c = 0x3A then map_option ((#) TColon) (lex cs)
      else if c = 0x22 then
        (case string_end cs of
           None \<Rightarrow> None
         | Some n \<Rightarrow>
             (case decode_string (take (n - 1) cs) of
                None \<Rightarrow> None
              | Some s \<Rightarrow> map_option ((#) (TValue (JStr s))) (lex (drop n cs))))
      else if prefix (js ''true'') (c # cs)
        then map_option ((#) (TValue (JBool True))) (lex (drop 3 cs))
      else if prefix (js ''false'') (c # cs)
        then map_option ((#) (TValue (JBool False))) (lex (drop 4 cs))
      else if prefix (js ''null'') (c # cs)
        then map_option ((#) (TValue JNull)) (lex (drop 3 cs))
      else if is_number_unit c then
        (case parse_number (c # takeWhile is_number_unit cs) of
           None \<Rightarrow> None
         | Some r \<Rightarrow>
             map_option ((#) (TValue (JNum r))) (lex (drop (length (takeWhile is_number_unit cs)) cs)))
      else None)"

text \<open>
  The stack machine. A frame is an open array with its elements so far, or an open
  object with its members so far and the key that waits for its value.
\<close>

datatype frame =
    ArrF "json list"
  | ObjF "(jsstring \<times> json) list" "jsstring option"

datatype mode =
    MValue | MFirst | MKey0 | MKey | MColon | MAfter
  | MDone json

fun deliver :: "json \<Rightarrow> frame list \<Rightarrow> (mode \<times> frame list) option" where
  "deliver v [] = Some (MDone v, [])"
| "deliver v (ArrF xs # st) = Some (MAfter, ArrF (xs @ [v]) # st)"
| "deliver v (ObjF kvs (Some k) # st) = Some (MAfter, ObjF (set_prop kvs k v) None # st)"
| "deliver v (ObjF kvs None # st) = None"

fun open_value :: "token \<Rightarrow> frame list \<Rightarrow> (mode \<times> frame list) option" where
  "open_value (TValue v) st = deliver v st"
| "open_value TLBracket st = Some (MFirst, ArrF [] # st)"
| "open_value TLBrace st = Some (MKey0, ObjF [] None # st)"
| "open_value _ st = None"

fun take_key :: "token \<Rightarrow> frame list \<Rightarrow> (mode \<times> frame list) option" where
  "take_key (TValue (JStr k)) (ObjF kvs None # st) = Some (MColon, ObjF kvs (Some k) # st)"
| "take_key _ _ = None"

fun step :: "mode \<times> frame list \<Rightarrow> token \<Rightarrow> (mode \<times> frame list) option" where
  "step (MValue, st) t = open_value t st"
| "step (MFirst, st) t =
     (case (t, st) of
        (TRBracket, ArrF xs # st') \<Rightarrow> deliver (JArr xs) st'
      | _ \<Rightarrow> open_value t st)"
| "step (MKey0, st) t =
     (case (t, st) of
        (TRBrace, ObjF kvs None # st') \<Rightarrow> deliver (JObj kvs) st'
      | _ \<Rightarrow> take_key t st)"
| "step (MKey, st) t = take_key t st"
| "step (MColon, st) t = (if t = TColon then Some (MValue, st) else None)"
| "step (MAfter, st) t =
     (case (t, st) of
        (TComma, ArrF xs # st') \<Rightarrow> Some (MValue, st)
      | (TComma, ObjF kvs None # st') \<Rightarrow> Some (MKey, st)
      | (TRBracket, ArrF xs # st') \<Rightarrow> deliver (JArr xs) st'
      | (TRBrace, ObjF kvs None # st') \<Rightarrow> deliver (JObj kvs) st'
      | _ \<Rightarrow> None)"
| "step (MDone v, st) t = None"

fun run :: "mode \<times> frame list \<Rightarrow> token list \<Rightarrow> (mode \<times> frame list) option" where
  "run s [] = Some s"
| "run s (t # ts) = (case step s t of None \<Rightarrow> None | Some s' \<Rightarrow> run s' ts)"

definition json_parse :: "jsstring \<Rightarrow> json option" where
  "json_parse s =
     (case lex s of
        None \<Rightarrow> None
      | Some ts \<Rightarrow> (case run (MValue, []) ts of
                     Some (MDone v, []) \<Rightarrow> Some v
                   | _ \<Rightarrow> None))"

text \<open>
  A number prints as its decimal expansion (integer part, then up to twenty digits of
  the fraction), which is what JavaScript prints for the integers below \<open>10^21\<close>
  and for short decimals; the exponent notation is not modelled. The reference has no
  calendar: its Date is exact on \<open>undefined\<close>, \<open>null\<close> and the booleans, and is
  an invalid date on everything else.
\<close>

fun frac_digits :: "nat \<Rightarrow> rat \<Rightarrow> jsstring" where
  "frac_digits 0 r = []"
| "frac_digits (Suc k) r =
     (if r = 0 then []
      else digit (nat \<lfloor>r * 10\<rfloor>) # frac_digits k (r * 10 - of_int \<lfloor>r * 10\<rfloor>))"

definition ref_Number_toString :: "rat \<Rightarrow> jsstring" where
  "ref_Number_toString r =
     (let a = \<bar>r\<bar>; f = a - of_int \<lfloor>a\<rfloor>
      in (if r < 0 then js ''-'' else []) @ show_nat (nat \<lfloor>a\<rfloor>) @
         (if f = 0 then [] else js ''.'' @ frac_digits 20 f))"

fun ref_Date_toUTCString :: "jsval \<Rightarrow> jsstring" where
  "ref_Date_toUTCString (Val JNull) = js ''Thu, 01 Jan 1970 00:00:00 GMT''"
| "ref_Date_toUTCString (Val (JBool b)) = js ''Thu, 01 Jan 1970 00:00:00 GMT''"
| "ref_Date_toUTCString _ = js ''Invalid Date''"

definition ref_platform :: platform where
  "ref_platform =
     \<lparr>JSON_parse = json_parse, Number_toString = ref_Number_toString,
      Date_toUTCString = ref_Date_toUTCString\<rparr>"

text \<open>
  A world whose upstream answers the \<open>k\<close>-th call with the \<open>k\<close>-th outcome of a
  script (and rejects once the script is used up), whose clock stands still and whose
  random numbers are all one half.
\<close>

definition scripted :: "fetch_outcome list \<Rightarrow> world" where
  "scripted outs =
     \<lparr>upstream = (\<lambda>k model prompt. if k < length outs then outs ! k else Rejected TypeError),
      requests = [], console = [],
      clock = (\<lambda>k. 1760868000000), ticks = 0,
      randoms = (\<lambda>k. 1 / 2), draws = 0\<rparr>"

text \<open>An upstream error body, and the upstream's reply around a generated text.\<close>

definition quota_error :: json where
  "quota_error = JObj [(js ''error'', JObj [(js ''message'', JStr (js ''Quota exceeded''))])]"

definition reply :: "jsstring \<Rightarrow> json" where
  "reply generatedText =
     JObj [(js ''candidates'',
            JArr [JObj [(js ''content'',
                         JObj [(js ''parts'', JArr [JObj [(js ''text'', JStr generatedText)]])])]])]"


section \<open>Vocabulary of the properties\<close>

fun is_array :: "json \<Rightarrow> bool" where
  "is_array (JArr xs) = True"
| "is_array _ = False"

text \<open>
  A fact of the JSON grammar that the fence search relies on: a line break is
  whitespace and a backtick can only stand inside a string literal, where no raw line
  break is allowed. So no accepted text has a line feed followed by a backtick.
\<close>

definition no_newline_backtick :: "platform \<Rightarrow> bool" where
  "no_newline_backtick P = (\<forall>s v. JSON_parse P s = Some v \<longrightarrow> \<not> occurs [0x0A, 0x60] s)"

definition nl_tick :: "jsstring \<Rightarrow> bool" where
  "nl_tick s = occurs [0x0A, 0x60] s"

text \<open>
  How one entry of the model list can fail, on the outcome of its call: the call is
  rejected or its body cannot be read (transport), the status is not a success, or
  the call succeeds and no article array comes out of its body (the generated text is
  missing or not a string, \<open>JSON.parse\<close> throws, or the value is not an array).
  \<open>entry_articles\<close> is the array that a successful entry yields.
\<close>

fun transport_failure :: "fetch_outcome \<Rightarrow> bool" where
  "transport_failure (Rejected e) = True"
| "transport_failure (Response ok (Inl e)) = True"
| "transport_failure (Response ok (Inr data)) = False"

fun non_success :: "fetch_outcome \<Rightarrow> bool" where
  "non_success (Rejected e) = False"
| "non_success (Response ok parsed) = (\<not> ok)"

definition text_articles :: "platform \<Rightarrow> json \<Rightarrow> json list option" where
  "text_articles P data =
     (case generatedText_of data of
        Inr (Val (JStr generatedText)) \<Rightarrow>
          (case parse_articles P generatedText of
             Some (JArr xs) \<Rightarrow> Some xs
           | _ \<Rightarrow> None)
      | _ \<Rightarrow> None)"

fun extraction_failure :: "platform \<Rightarrow> fetch_outcome \<Rightarrow> bool" where
  "extraction_failure P (Response ok (Inr data)) = (ok \<and> text_articles P data = None)"
| "extraction_failure P _ = False"

definition entry_fails :: "platform \<Rightarrow> fetch_outcome \<Rightarrow> bool" where
  "entry_fails P out = (transport_failure out \<or> non_success out \<or> extraction_failure P out)"

fun entry_articles :: "platform \<Rightarrow> fetch_outcome \<Rightarrow> json list option" where
  "entry_articles P (Response ok (Inr data)) = (if ok then text_articles P data else None)"
| "entry_articles P _ = None"

text \<open>The models whose failure the console records, in the order of the lines.\<close>

fun failure_model :: "log_entry \<Rightarrow> jsstring option" where
  "failure_model (Failed model msg) = Some model"
| "failure_model (Errored model e) = Some model"
| "failure_model _ = None"

definition failed_models :: "log_entry list \<Rightarrow> jsstring list" where
  "failed_models entries = List.map_filter failure_model entries"

text \<open>
  What a failed run of the \<open>try\<close> block leaves behind, before and after the
  \<open>catch\<close>: no response, one failure line for the model, and nothing else changed
  in the world but the console.
\<close>

definition fails_with ::
  "jsstring \<Rightarrow> world \<Rightarrow> (js_error + response option) \<times> world \<Rightarrow> bool" where
  "fails_with model w r =
     ((fst r = Inr None \<or> isl (fst r))
      \<and> failed_models (console (case fst r of Inl e \<Rightarrow> console_log (Errored model e) (snd r)
                                  | Inr _ \<Rightarrow> snd r))
          = failed_models (console w) @ [model]
      \<and> requests (snd r) = requests w \<and> upstream (snd r) = upstream w
      \<and> clock (snd r) = clock w \<and> ticks (snd r) = ticks w)"

text \<open>
  The number of entries of the model list that the loop tries: the failing entries
  at the front of the list and, if the list goes on, the entry after them.
\<close>

definition attempts :: "platform \<Rightarrow> world \<Rightarrow> jsstring \<Rightarrow> jsstring list \<Rightarrow> nat" where
  "attempts P w pr ms =
     min (Suc (length (takeWhile
                 (\<lambda>k. entry_fails P (upstream w (length (requests w) + k) (ms ! k) pr))
                 [0..<length ms])))
         (length ms)"

text \<open>
  The least exact products \<open>r * 5\<close> whose binary64 value reaches 0, 1, ..., 5: from
  1 on, half a unit in the last place below the number.
\<close>

definition thresholds :: "rat list" where
  "thresholds =
     [0, 1 - 1 / 2 ^ 54, 2 - 1 / 2 ^ 53, 3 - 1 / 2 ^ 52, 4 - 1 / 2 ^ 52, 5 - 1 / 2 ^ 51]"

text \<open>
  The \<open>id\<close> a record of a batch ends up with, and whether an article brings an
  \<open>id\<close> of its own.
\<close>

definition id_of :: "json \<Rightarrow> jsval" where
  "id_of obj = (case js_get (Val obj) (js ''id'') of Inr v \<Rightarrow> v | Inl e \<Rightarrow> Undefined)"

definition has_own_id :: "json \<Rightarrow> bool" where
  "has_own_id article = (js ''id'' \<in> fst ` set (own_props article))"

text \<open>
  An Article of the data model, as a cached value: an object whose six fields, where
  present, are primitive values.
\<close>

fun primitive :: "json \<Rightarrow> bool" where
  "primitive (JArr xs) = False"
| "primitive (JObj kvs) = False"
| "primitive _ = True"

definition article_fields :: "jsstring list" where
  "article_fields =
     [js ''headline'', js ''summary'', js ''author'', js ''category'', js ''date'', js ''id'']"

definition is_article :: "json \<Rightarrow> bool" where
  "is_article a =
     (case a of
        JObj kvs \<Rightarrow> list_all (\<lambda>k. case map_of kvs k of None \<Rightarrow> True
                                      | Some v \<Rightarrow> primitive v) article_fields
      | _ \<Rightarrow> False)"

text \<open>
  The number of places of a text at which a pattern starts, and the item elements of
  a feed document counted as the opening tags \<open><item>\<close> in it (\<open>None\<close> when the
  handler throws and no document is sent).
\<close>

fun count_occ :: "'a list \<Rightarrow> 'a list \<Rightarrow> nat" where
  "count_occ p [] = (if p = [] then 1 else 0)"
| "count_occ p (x # xs) = (if prefix p (x # xs) then 1 else 0) + count_occ p xs"

definition item_tag :: jsstring where
  "item_tag = js ''<item>''"

definition feed_item_count :: "js_error + jsstring \<Rightarrow> nat option" where
  "feed_item_count r = (case r of Inl e \<Rightarrow> None | Inr doc \<Rightarrow> Some (count_occ item_tag doc))"

text \<open>
  A text without the character \<open><\<close>, and an entry of the batch all of whose six
  substitutions in the item template render, to such texts.
\<close>

definition plain :: "jsstring \<Rightarrow> bool" where
  "plain s = (0x3C \<notin> set s)"

definition plain_result :: "js_error + jsstring \<Rightarrow> bool" where
  "plain_result r = (case r of Inl e \<Rightarrow> False | Inr s \<Rightarrow> plain s)"

definition plain_entry :: "platform \<Rightarrow> json \<Rightarrow> bool" where
  "plain_entry P article =
     (plain_result (field P article (js ''headline''))
      \<and> plain_result (field P article (js ''summary''))
      \<and> plain_result (field P article (js ''author''))
      \<and> plain_result (field P article (js ''category''))
      \<and> plain_result (ebind (js_get (Val article) (js ''date'')) (pubDate P))
      \<and> plain_result (field P article (js ''id'')))"


section \<open>Properties of the fence search\<close>

lemma occurs_iff: "occurs p s \<longleftrightarrow> (\<exists>a b. s = a @ p @ b)"
proof (induction s)
  case Nil
  then show ?case by auto
next
  case (Cons x xs)
  show ?case
  proof
    assume "occurs p (x # xs)"
    then consider "prefix p (x # xs)" | "occurs p xs" by auto
    then show "\<exists>a b. x # xs = a @ p @ b"
    proof cases
      case 1
      then obtain b where "x # xs = p @ b" by (auto simp: prefix_def)
      then have "x # xs = [] @ p @ b" by simp
      then show ?thesis by blast
    next
      case 2
      with Cons obtain a b where "xs = a @ p @ b" by blast
      then have "x # xs = (x # a) @ p @ b" by simp
      then show ?thesis by blast
    qed
  next
    assume "\<exists>a b. x # xs = a @ p @ b"
    then obtain a b where ab: "x # xs = a @ p @ b" by blast
    show "occurs p (x # xs)"
    proof (cases a)
      case Nil
      with ab have "prefix p (x # xs)" by (simp add: prefix_def)
      then show ?thesis by simp
    next
      case (Cons y ys)
      with ab have "xs = ys @ p @ b" by simp
      with Cons.IH have "occurs p xs" by blast
      then show ?thesis by simp
    qed
  qed
qed

lemma occurs_append_left: "occurs p s \<Longrightarrow> occurs p (a @ s)"
  by (induction a) auto

lemma occurs_prefix_mono: "occurs p s \<Longrightarrow> prefix q p \<Longrightarrow> occurs q s"
  unfolding occurs_iff prefix_def by (metis append.assoc)

lemma lazy_until_None_iff: "lazy_until closer s = None \<longleftrightarrow> \<not> occurs closer s"
  by (induction s) auto

lemma lazy_until_first:
  assumes "closer \<noteq> []" and "\<not> occurs closer (butlast (c @ closer))"
  shows "lazy_until closer (c @ closer @ r) = Some c"
  using assms
proof (induction c)
  case Nil
  then obtain x xs where "closer = x # xs" by (cases closer) auto
  then show ?case by simp
next
  case (Cons y c)
  have np: "\<not> prefix closer (y # c @ closer @ r)"
  proof
    assume pr: "prefix closer (y # c @ closer @ r)"
    have "length closer \<le> length ((y # c) @ butlast closer)" using Cons.prems(1) by simp
    moreover have "y # c @ closer @ r = ((y # c) @ butlast closer) @ (last closer # r)"
      using Cons.prems(1) by simp
    ultimately have "prefix closer ((y # c) @ butlast closer)"
      using pr by (metis prefix_length_prefix prefixI)
    then have "occurs closer ((y # c) @ butlast closer)" by simp
    with Cons.prems show False by (simp add: butlast_append)
  qed
  have "\<not> occurs closer (butlast (c @ closer))"
    using Cons.prems by (auto simp: butlast_append split: if_splits)
  with Cons.IH Cons.prems(1) have "lazy_until closer (c @ closer @ r) = Some c" by blast
  with np show ?case by simp
qed

lemma fence_match_first:
  assumes "opener \<noteq> []" and "\<not> occurs opener (butlast (pre @ opener))"
    and "lazy_until closer rest = Some c"
  shows "fence_match opener closer (pre @ opener @ rest) = Some c"
  using assms(1,2)
proof (induction pre)
  case Nil
  then obtain x xs where "opener = x # xs" by (cases opener) auto
  with assms(3) show ?case by simp
next
  case (Cons y pre)
  have np: "\<not> prefix opener (y # pre @ opener @ rest)"
  proof
    assume pr: "prefix opener (y # pre @ opener @ rest)"
    have "length opener \<le> length ((y # pre) @ butlast opener)" using Cons.prems(1) by simp
    moreover have "y # pre @ opener @ rest = ((y # pre) @ butlast opener) @ (last opener # rest)"
      using Cons.prems(1) by simp
    ultimately have "prefix opener ((y # pre) @ butlast opener)"
      using pr by (metis prefix_length_prefix prefixI)
    then have "occurs opener ((y # pre) @ butlast opener)" by simp
    with Cons.prems show False by (simp add: butlast_append)
  qed
  have "\<not> occurs opener (butlast (pre @ opener))"
    using Cons.prems by (auto simp: butlast_append split: if_splits)
  with Cons.IH Cons.prems(1) have "fence_match opener closer (pre @ opener @ rest) = Some c" by blast
  with np show ?case by simp
qed

lemma fence_match_occurs: "fence_match opener closer s = Some c \<Longrightarrow> occurs opener s"
  by (induction s) (auto split: if_splits option.splits)

lemma fence_match_skip:
  "t \<notin> set u \<Longrightarrow> fence_match (t # opener) closer (u @ s) = fence_match (t # opener) closer s"
  by (induction u) auto

lemma fence_match_no_tick:
  "t \<notin> set s \<Longrightarrow> fence_match (t # opener) closer s = None"
  by (induction s) auto

lemma lazy_until_no_tick:
  "t \<in> set closer \<Longrightarrow> t \<notin> set s \<Longrightarrow> lazy_until closer s = None"
proof (induction s)
  case Nil
  then show ?case by auto
next
  case (Cons x xs)
  have "\<not> prefix closer (x # xs)"
  proof
    assume "prefix closer (x # xs)"
    then have "set closer \<subseteq> set (x # xs)" by (rule set_mono_prefix)
    with Cons.prems show False by auto
  qed
  with Cons show ?case by simp
qed

lemma prefix_stops_at_tick:
  "t \<notin> set p \<Longrightarrow> prefix p (u @ t # r) \<longleftrightarrow> prefix p u"
proof (induction p arbitrary: u)
  case Nil
  then show ?case by simp
next
  case (Cons a p)
  then show ?case by (cases u) auto
qed

lemma lazy_until_unterminated:
  assumes "t \<notin> set u" and "t \<notin> set post" and "n \<noteq> t" and "\<not> suffix [n] u"
  shows "lazy_until [n, t, t, t] (u @ [t, t, t] @ post) = None"
  using assms(1,4)
proof (induction u)
  case Nil
  have "lazy_until [n, t, t, t] post = None"
    using assms(2) by (intro lazy_until_no_tick[of t]) auto
  with assms(3) show ?case by simp
next
  case (Cons x u)
  have np: "\<not> prefix [n, t, t, t] (x # u @ [t, t, t] @ post)"
  proof (cases u)
    case Nil
    with Cons.prems(2) have "x \<noteq> n" by auto
    then show ?thesis by auto
  next
    case (Cons y ys)
    with \<open>t \<notin> set (x # u)\<close> show ?thesis by auto
  qed
  have "\<not> suffix [n] u"
    using Cons.prems(2) by (auto simp: suffix_Cons)
  with Cons.IH Cons.prems(1) have "lazy_until [n, t, t, t] (u @ [t, t, t] @ post) = None" by simp
  with np show ?case by simp
qed

lemma fence_match_step_np:
  "\<not> prefix opener (x # xs) \<Longrightarrow>
   fence_match opener closer (x # xs) = fence_match opener closer xs"
  by simp

lemma fence_match_step_nc:
  "lazy_until closer (drop (length opener) (x # xs)) = None \<Longrightarrow>
   fence_match opener closer (x # xs) = fence_match opener closer xs"
  by simp

lemma single_fence_unrecognised:
  assumes t: "t \<notin> set pre" "t \<notin> set inner" "t \<notin> set post" "t \<notin> set tag" "n \<noteq> t"
    and h: "\<not> (prefix (tag @ [n]) inner \<and> suffix [n] inner)"
  shows "fence_match (t # t # t # tag @ [n]) [n, t, t, t]
           (pre @ t # t # t # inner @ t # t # t # post) = None"
proof -
  let ?op = "t # t # t # tag @ [n]" and ?cl = "[n, t, t, t]"
  have tn: "t \<notin> set (tag @ [n])" using t by auto
  have hd_tag: "\<not> prefix (tag @ [n]) (t # r)" for r
    using tn by (cases tag) auto
  have hd_post: "\<not> prefix (t # p) post" for p
    using t(3) by (cases post) auto
  have hd_inner: "\<not> prefix (t # p) (inner @ t # r)" if "\<not> prefix p r" for p r
    using t(2) that by (cases inner) auto
  \<comment> \<open>the closing fence and what follows it\<close>
  have post0: "fence_match ?op ?cl post = None"
    using t(3) by (rule fence_match_no_tick)
  have "\<not> prefix ?op (t # post)" using hd_post by simp
  then have "fence_match ?op ?cl (t # post) = fence_match ?op ?cl post"
    by (rule fence_match_step_np)
  with post0 have post1: "fence_match ?op ?cl (t # post) = None" by (simp only:)
  have "\<not> prefix ?op (t # t # post)" using hd_post by simp
  then have "fence_match ?op ?cl (t # t # post) = fence_match ?op ?cl (t # post)"
    by (rule fence_match_step_np)
  with post1 have post2: "fence_match ?op ?cl (t # t # post) = None" by (simp only:)
  have "t \<notin> set (drop (length ?op) (t # t # t # post))"
    using t(3) by (auto dest: in_set_dropD)
  then have "lazy_until ?cl (drop (length ?op) (t # t # t # post)) = None"
    by (intro lazy_until_no_tick[of t]) simp_all
  then have "fence_match ?op ?cl (t # t # t # post) = fence_match ?op ?cl (t # t # post)"
    by (rule fence_match_step_nc)
  with post2 have post3: "fence_match ?op ?cl (t # t # t # post) = None" by (simp only:)
  \<comment> \<open>the text between the fences\<close>
  have "fence_match ?op ?cl (inner @ t # t # t # post) = fence_match ?op ?cl (t # t # t # post)"
    using t(2) by (rule fence_match_skip)
  with post3 have mid0: "fence_match ?op ?cl (inner @ t # t # t # post) = None" by (simp only:)
  have "\<not> prefix (t # t # tag @ [n]) (inner @ t # t # t # post)"
    by (rule hd_inner) (use hd_tag in simp)
  then have "\<not> prefix ?op (t # inner @ t # t # t # post)" by simp
  then have "fence_match ?op ?cl (t # inner @ t # t # t # post)
             = fence_match ?op ?cl (inner @ t # t # t # post)"
    by (rule fence_match_step_np)
  with mid0 have mid1: "fence_match ?op ?cl (t # inner @ t # t # t # post) = None" by (simp only:)
  have "\<not> prefix (t # tag @ [n]) (inner @ t # t # t # post)"
    by (rule hd_inner) (use hd_tag in simp)
  then have "\<not> prefix ?op (t # t # inner @ t # t # t # post)" by simp
  then have "fence_match ?op ?cl (t # t # inner @ t # t # t # post)
             = fence_match ?op ?cl (t # inner @ t # t # t # post)"
    by (rule fence_match_step_np)
  with mid1 have mid2: "fence_match ?op ?cl (t # t # inner @ t # t # t # post) = None"
    by (simp only:)
  \<comment> \<open>the opening fence\<close>
  have "fence_match ?op ?cl (t # t # t # inner @ t # t # t # post)
        = fence_match ?op ?cl (t # t # inner @ t # t # t # post)"
  proof (cases "prefix (tag @ [n]) inner")
    case True
    then obtain u where u: "inner = (tag @ [n]) @ u" by (auto simp: prefix_def)
    have nsu: "\<not> suffix [n] u"
    proof
      assume "suffix [n] u"
      then have "suffix [n] ((tag @ [n]) @ u)" by (rule suffix_appendI)
      then have "suffix [n] inner" by (simp only: u)
      with h True show False by blast
    qed
    have tu: "t \<notin> set u" using t(2) unfolding u by simp
    have "lazy_until ?cl (u @ [t, t, t] @ post) = None"
      using tu t(3,5) nsu by (rule lazy_until_unterminated)
    moreover have "t # t # t # inner @ t # t # t # post = ?op @ (u @ [t, t, t] @ post)"
      unfolding u by simp
    then have "drop (length ?op) (t # t # t # inner @ t # t # t # post) = u @ [t, t, t] @ post"
      by (metis append_eq_conv_conj)
    ultimately have "lazy_until ?cl (drop (length ?op) (t # t # t # inner @ t # t # t # post)) = None"
      by (simp only:)
    then show ?thesis by (rule fence_match_step_nc)
  next
    case False
    then have "\<not> prefix (tag @ [n]) (inner @ t # t # t # post)"
      by (simp only: prefix_stops_at_tick[OF tn] not_False_eq_True)
    then have "\<not> prefix ?op (t # t # t # inner @ t # t # t # post)" by simp
    then show ?thesis by (rule fence_match_step_np)
  qed
  with mid2 have mid3: "fence_match ?op ?cl (t # t # t # inner @ t # t # t # post) = None"
    by (simp only:)
  have "fence_match ?op ?cl (pre @ t # t # t # inner @ t # t # t # post)
        = fence_match ?op ?cl (t # t # t # inner @ t # t # t # post)"
    using t(1) by (rule fence_match_skip)
  with mid3 show ?thesis by (simp only:)
qed

lemma fence_consts:
  "fence_json = [0x60, 0x60, 0x60, 0x6A, 0x73, 0x6F, 0x6E, 0x0A]"
  "fence_plain = [0x60, 0x60, 0x60, 0x0A]"
  "fence_close = [0x0A, 0x60, 0x60, 0x60]"
  by (simp_all add: fence_json_def fence_plain_def fence_close_def js_def)

lemma no_closer_inside:
  "\<not> occurs [0x0A, 0x60] u \<Longrightarrow> \<not> occurs fence_close (butlast (u @ fence_close))"
proof (induction u)
  case Nil
  then show ?case by (simp add: fence_consts)
next
  case (Cons c u)
  then show ?case by (cases u) (auto simp: fence_consts)
qed

lemma fence_match_no_opener:
  "\<not> occurs opener s \<Longrightarrow> fence_match opener closer s = None"
  using fence_match_occurs[of opener closer s] by (cases "fence_match opener closer s") auto


section \<open>The reference parser and the fences\<close>

lemma nl_tick_Nil [simp]: "\<not> nl_tick []" by (simp add: nl_tick_def)

lemma nl_tick_Cons: "nl_tick (c # cs) \<longleftrightarrow> (c = 0x0A \<and> (\<exists>r. cs = 0x60 # r)) \<or> nl_tick cs"
  by (cases cs) (auto simp: nl_tick_def)

lemma nl_tick_skip: "0x0A \<notin> set u \<Longrightarrow> nl_tick (u @ r) \<longleftrightarrow> nl_tick r"
  by (induction u) (auto simp: nl_tick_Cons)

lemma hex_val_newline: "hex_val 0x0A = None"
  by (simp add: hex_val_def)

lemma escape_newline: "escape 0x0A = None"
  by (simp add: escape_def)

lemma decode_string_no_newline: "decode_string u = Some s \<Longrightarrow> 0x0A \<notin> set u"
proof (induction u arbitrary: s rule: decode_string.induct)
  case 1
  then show ?case by simp
next
  case (2 c cs)
  show ?case
  proof (cases "c = 0x5C")
    case True
    note bs = this
    then obtain e es where cs: "cs = e # es" using "2.prems" by (cases cs) auto
    show ?thesis
    proof (cases "e = 0x75")
      case True
      then obtain h1 h2 h3 h4 r where es: "es = h1 # h2 # h3 # h4 # r"
        using "2.prems" bs cs by (auto split: list.splits)
      then obtain u where u: "hex4 h1 h2 h3 h4 = Some u"
        using "2.prems" bs cs True by (auto split: option.splits)
      then obtain s' where "decode_string r = Some s'"
        using "2.prems" bs cs True es by auto
      with "2.IH"(1) bs cs True es u have "0x0A \<notin> set r" by blast
      moreover have "h1 \<noteq> 0x0A \<and> h2 \<noteq> 0x0A \<and> h3 \<noteq> 0x0A \<and> h4 \<noteq> 0x0A"
        using u hex_val_newline by (auto simp: hex4_def split: option.splits)
      ultimately show ?thesis using bs cs True es by simp
    next
      case False
      then obtain u where u: "escape e = Some u"
        using "2.prems" bs cs by (auto split: option.splits)
      then obtain s' where "decode_string es = Some s'"
        using "2.prems" bs cs False by auto
      with "2.IH"(2) bs cs False u have "0x0A \<notin> set es" by blast
      moreover have "e \<noteq> 0x0A" using u escape_newline by auto
      ultimately show ?thesis using bs cs by simp
    qed
  next
    case False
    then have c: "\<not> (c < 0x20 \<or> c = 0x22)" using "2.prems" by (auto split: if_splits)
    then obtain s' where "decode_string cs = Some s'" using "2.prems" False by auto
    with "2.IH"(3) False c have "0x0A \<notin> set cs" by blast
    moreover have "c \<noteq> 0x0A" using c by auto
    ultimately show ?thesis by simp
  qed
qed


lemma string_end_quote:
  "string_end cs = Some n \<Longrightarrow> 0 < n \<and> n \<le> length cs \<and> cs ! (n - 1) = 0x22"
proof (induction cs arbitrary: n rule: string_end.induct)
  case 1
  then show ?case by simp
next
  case (2 c)
  then show ?case by (auto split: if_splits)
next
  case (3 c d cs)
  show ?case
  proof (cases "c = 0x22")
    case True
    with "3.prems" show ?thesis by simp
  next
    case nq: False
    show ?thesis
    proof (cases "c = 0x5C")
      case True
      with nq "3.prems" obtain m where m: "string_end cs = Some m" "n = m + 2" by auto
      from "3.IH"(1) nq True m show ?thesis by simp
    next
      case False
      with nq "3.prems" obtain m where m: "string_end (d # cs) = Some m" "n = Suc m" by auto
      from "3.IH"(2) nq False m show ?thesis by (cases m) auto
    qed
  qed
qed

lemma lex_tick: "lex (0x60 # cs) = None"
  by (simp add: is_ws_def js_def is_number_unit_def is_digit_def)

lemma nl_tick_step: "lex cs = Some ts \<Longrightarrow> \<not> nl_tick cs \<Longrightarrow> \<not> nl_tick (c # cs)"
  using lex_tick by (auto simp: nl_tick_Cons)

lemma nl_tick_chunk: "c \<noteq> 0x0A \<Longrightarrow> 0x0A \<notin> set u \<Longrightarrow> \<not> nl_tick r \<Longrightarrow> cs = u @ r \<Longrightarrow> \<not> nl_tick (c # cs)"
  using nl_tick_skip[of "c # u" r] by simp

lemma lex_no_nl_tick: "lex s = Some ts \<Longrightarrow> \<not> nl_tick s"
proof (induction s arbitrary: ts rule: lex.induct)
  case 1
  then show ?case by simp
next
  case (2 c cs)
  note prems = "2.prems"
  note IH = "2.IH"
  consider (ws) "is_ws c"
    | (punct) "\<not> is_ws c" "c = 0x5B \<or> c = 0x5D \<or> c = 0x7B \<or> c = 0x7D \<or> c = 0x2C \<or> c = 0x3A"
    | (str) "\<not> is_ws c" "\<not> (c = 0x5B \<or> c = 0x5D \<or> c = 0x7B \<or> c = 0x7D \<or> c = 0x2C \<or> c = 0x3A)" "c = 0x22"
    | (other) "\<not> is_ws c" "\<not> (c = 0x5B \<or> c = 0x5D \<or> c = 0x7B \<or> c = 0x7D \<or> c = 0x2C \<or> c = 0x3A)" "c \<noteq> 0x22"
    by blast
  then show ?case
  proof cases
    case ws
    with prems have "lex cs = Some ts" by simp
    with IH(1) ws show ?thesis using nl_tick_step by blast
  next
    case punct
    with prems obtain ts' where l: "lex cs = Some ts'" by (auto split: if_splits)
    have "\<not> nl_tick cs" using punct l IH(2-7) by (auto split: if_splits)
    with l show ?thesis using nl_tick_step by blast
  next
    case str
    then have c: "c \<noteq> 0x5B" "c \<noteq> 0x5D" "c \<noteq> 0x7B" "c \<noteq> 0x7D" "c \<noteq> 0x2C" "c \<noteq> 0x3A" by auto
    from prems str c obtain n where n: "string_end cs = Some n" by (auto split: option.splits)
    from prems str c n obtain s' where s': "decode_string (take (n - 1) cs) = Some s'"
      by (auto split: option.splits)
    from prems str c n s' obtain ts' where l: "lex (drop n cs) = Some ts'" by auto
    have "\<not> nl_tick (drop n cs)"
      using IH(8) str(1) c str(3) n s' l by blast
    moreover from string_end_quote[OF n] have "take n cs = take (n - 1) cs @ [0x22]"
      by (cases n) (auto simp: take_Suc_conv_app_nth)
    with decode_string_no_newline[OF s'] have "0x0A \<notin> set (take n cs)" by simp
    moreover have "cs = take n cs @ drop n cs" by simp
    ultimately show ?thesis using nl_tick_chunk[of c "take n cs" "drop n cs" cs] str(3) by simp
  next
    case other
    then have c: "c \<noteq> 0x5B" "c \<noteq> 0x5D" "c \<noteq> 0x7B" "c \<noteq> 0x7D" "c \<noteq> 0x2C" "c \<noteq> 0x3A" by auto
    have cnl: "c \<noteq> 0x0A" using other(1) by (auto simp: is_ws_def)
    show ?thesis
    proof (cases "prefix (js ''true'') (c # cs)")
      case True
      with prems other c obtain ts' where l: "lex (drop 3 cs) = Some ts'" by auto
      from True have "c # take 3 cs = js ''true''"
        by (auto simp: js_def prefix_def)
      then have "0x0A \<notin> set (take 3 cs)" by (auto simp: js_def)
      moreover have "\<not> nl_tick (drop 3 cs)" using IH(9) other(1) c other(3) True l by blast
      ultimately show ?thesis using nl_tick_chunk[of c "take 3 cs" "drop 3 cs" cs] cnl by simp
    next
      case nt: False
      show ?thesis
      proof (cases "prefix (js ''false'') (c # cs)")
        case True
        with prems other c nt obtain ts' where l: "lex (drop 4 cs) = Some ts'" by auto
        from True have "c # take 4 cs = js ''false''"
          by (auto simp: js_def prefix_def)
        then have "0x0A \<notin> set (take 4 cs)" by (auto simp: js_def)
        moreover have "\<not> nl_tick (drop 4 cs)" using IH(10) other(1) c other(3) nt True l by blast
        ultimately show ?thesis using nl_tick_chunk[of c "take 4 cs" "drop 4 cs" cs] cnl by simp
      next
        case nf: False
        show ?thesis
        proof (cases "prefix (js ''null'') (c # cs)")
          case True
          with prems other c nt nf obtain ts' where l: "lex (drop 3 cs) = Some ts'" by auto
          from True have "c # take 3 cs = js ''null''"
            by (auto simp: js_def prefix_def)
          then have "0x0A \<notin> set (take 3 cs)" by (auto simp: js_def)
          moreover have "\<not> nl_tick (drop 3 cs)" using IH(11) other(1) c other(3) nt nf True l by blast
          ultimately show ?thesis using nl_tick_chunk[of c "take 3 cs" "drop 3 cs" cs] cnl by simp
        next
          case nn: False
          with prems other c nt nf have nu: "is_number_unit c" by (auto split: if_splits)
          with prems other c nt nf nn obtain r where r: "parse_number (c # takeWhile is_number_unit cs) = Some r"
            by (auto split: option.splits)
          with prems other c nt nf nn nu obtain ts' where
            l: "lex (drop (length (takeWhile is_number_unit cs)) cs) = Some ts'" by auto
          have "\<not> nl_tick (drop (length (takeWhile is_number_unit cs)) cs)"
            using IH(12) other(1) c other(3) nt nf nn nu r l by blast
          moreover have "0x0A \<notin> set (takeWhile is_number_unit cs)"
            by (auto dest!: set_takeWhileD simp: is_number_unit_def is_digit_def)
          moreover have "cs = takeWhile is_number_unit cs @ drop (length (takeWhile is_number_unit cs)) cs"
            by (metis takeWhile_dropWhile_id dropWhile_eq_drop)
          ultimately show ?thesis
            using nl_tick_chunk[of c "takeWhile is_number_unit cs" "drop (length (takeWhile is_number_unit cs)) cs" cs] cnl
            by simp
        qed
      qed
    qed
  qed
qed

lemma json_parse_no_nl_tick: "json_parse s = Some v \<Longrightarrow> \<not> occurs [0x0A, 0x60] s"
  using lex_no_nl_tick[of s] by (auto simp: json_parse_def nl_tick_def split: option.splits)

lemma ref_platform_no_newline_backtick: "no_newline_backtick ref_platform"
  using json_parse_no_nl_tick by (simp add: no_newline_backtick_def ref_platform_def)


section \<open>Properties of the Extractor\<close>

lemma articlesWithIds_array:
  "articlesWithIds (JArr xs) w = (Inr (fst (map_ids 0 xs w)), snd (map_ids 0 xs w))"
  by (simp add: articlesWithIds_def split: prod.splits)

lemma articlesWithIds_other: "\<not> is_array v \<Longrightarrow> articlesWithIds v w = (Inl TypeError, w)"
  by (cases v) (simp_all add: articlesWithIds_def)

text \<open>
  C3. The extraction fails exactly when \<open>JSON.parse\<close> throws on the text it is given
  (the interior of the first fence, or the whole text) or the parsed value is not an
  array. In particular a text that parses to a value that is not an array, such as an
  object, gives a TypeError and not that value, and leaves the world as it was.
\<close>

theorem extract_fails_exactly:
  "(isl (fst (extract_json P text w)) \<longleftrightarrow>
      (case JSON_parse P (jsonText text) of None \<Rightarrow> True | Some v \<Rightarrow> \<not> is_array v))
   \<and> (\<forall>v. JSON_parse P (jsonText text) = Some v \<and> \<not> is_array v \<longrightarrow>
          extract_json P text w = (Inl TypeError, w))"
proof (cases "JSON_parse P (jsonText text)")
  case None
  then show ?thesis by (simp add: extract_json_def parse_articles_def)
next
  case (Some v)
  then show ?thesis
    by (cases "is_array v")
       (auto simp: extract_json_def parse_articles_def articlesWithIds_other
          articlesWithIds_array elim!: is_array.elims)
qed

theorem extract_fails_exactly_witness:
  \<open>JSON_parse ref_platform (jsonText (js ''{"headline": "x"}'')) = Some (JObj [(js ''headline'', JStr (js ''x''))])
   \<and> \<not> is_array (JObj [(js ''headline'', JStr (js ''x''))])
   \<and> extract_json ref_platform (js ''{"headline": "x"}'') (scripted []) = (Inl TypeError, scripted [])\<close>
proof -
  have t: \<open>jsonText (js ''{"headline": "x"}'') = js ''{"headline": "x"}''\<close>
    by (simp add: jsonText_def jsonMatch_def fence_consts js_def)
  have p: \<open>json_parse (js ''{"headline": "x"}'') = Some (JObj [(js ''headline'', JStr (js ''x''))])\<close>
    by code_simp
  have "JSON_parse ref_platform (jsonText (js ''{\"headline\": \"x\"}'')) = Some (JObj [(js ''headline'', JStr (js ''x''))])"
    by (simp add: t p ref_platform_def)
  then show ?thesis
    using extract_fails_exactly[of ref_platform \<open>js ''{"headline": "x"}''\<close> "scripted []"]
    by simp
qed

text \<open>
  C4, as the claim states it, fails: the search takes the first fence of the text, so
  a fenced array that comes after an earlier fenced block is not the one returned.
  Here the earlier block holds an object and the extraction is a TypeError.
\<close>

theorem fenced_json_later_block_counterexample:
  \<open>js ''```json\<newline>{}\<newline>```\<newline>```json\<newline>[1]\<newline>```''
     = js ''```json\<newline>{}\<newline>```\<newline>'' @ fence_json @ js ''[1]'' @ fence_close @ []
   \<and> JSON_parse ref_platform (js ''[1]'') = Some (JArr [JNum 1])
   \<and> parse_articles ref_platform (js ''```json\<newline>{}\<newline>```\<newline>```json\<newline>[1]\<newline>```'')
       = Some (JObj [])
   \<and> extract_json ref_platform (js ''```json\<newline>{}\<newline>```\<newline>```json\<newline>[1]\<newline>```'')
         (scripted [])
       = (Inl TypeError, scripted [])\<close>
proof -
  have m: "jsonText (js ''```json\<newline>{}\<newline>```\<newline>```json\<newline>[1]\<newline>```'') = js ''{}''"
    by (simp add: jsonText_def jsonMatch_def fence_consts js_def)
  have p1: "json_parse (js ''[1]'') = Some (JArr [JNum 1])" by code_simp
  have p2: "json_parse (js ''{}'') = Some (JObj [])" by code_simp
  show ?thesis
    by (simp add: extract_json_def parse_articles_def m p1 p2 ref_platform_def articlesWithIds_def)
       (simp add: js_def fence_consts)
qed

text \<open>
  C4, amended. When the text before the block contains no earlier \<open>```json\<close> line
  opener, and the interior of the block is a valid JSON array, the fence search
  captures exactly the interior, \<open>articles\<close> is that array and the extraction
  succeeds on it, whatever prose follows the block and whatever prose precedes it.
\<close>

theorem fenced_json_first_block:
  assumes "text = pre @ fence_json @ interior @ fence_close @ post"
    and "\<not> occurs fence_json (butlast (pre @ fence_json))"
    and "no_newline_backtick P"
    and "JSON_parse P interior = Some (JArr xs)"
  shows "jsonMatch text = Some interior
       \<and> parse_articles P text = Some (JArr xs)
       \<and> extract_json P text w = (Inr (fst (map_ids 0 xs w)), snd (map_ids 0 xs w))"
proof -
  have "\<not> occurs [0x0A, 0x60] interior"
    using assms(3,4) by (auto simp: no_newline_backtick_def)
  then have "lazy_until fence_close (interior @ fence_close @ post) = Some interior"
    by (intro lazy_until_first no_closer_inside) (simp add: fence_consts)
  then have "fence_match fence_json fence_close text = Some interior"
    unfolding assms(1) using assms(2) by (intro fence_match_first) (simp_all add: fence_consts)
  then have m: "jsonMatch text = Some interior" by (simp add: jsonMatch_def)
  then have "parse_articles P text = Some (JArr xs)"
    using assms(4) by (simp add: parse_articles_def jsonText_def)
  with m show ?thesis by (simp add: extract_json_def articlesWithIds_array)
qed

theorem fenced_json_first_block_witness:
  \<open>js ''Here you go:\<newline>```json\<newline>[{"headline": "x"}]\<newline>```\<newline>Enjoy!''
     = js ''Here you go:\<newline>'' @ fence_json @ js ''[{"headline": "x"}]'' @ fence_close @ js ''\<newline>Enjoy!''
   \<and> \<not> occurs fence_json (butlast (js ''Here you go:\<newline>'' @ fence_json))
   \<and> no_newline_backtick ref_platform
   \<and> JSON_parse ref_platform (js ''[{"headline": "x"}]'') = Some (JArr [JObj [(js ''headline'', JStr (js ''x''))]])
   \<and> parse_articles ref_platform (js ''Here you go:\<newline>```json\<newline>[{"headline": "x"}]\<newline>```\<newline>Enjoy!'')
       = Some (JArr [JObj [(js ''headline'', JStr (js ''x''))]])
   \<and> fst (extract_json ref_platform
          (js ''Here you go:\<newline>```json\<newline>[{"headline": "x"}]\<newline>```\<newline>Enjoy!'') (scripted []))
       = Inr [JObj [(js ''id'', JNum 1760868000000), (js ''headline'', JStr (js ''x''))]]\<close>
proof -
  have d: \<open>js ''Here you go:\<newline>```json\<newline>[{"headline": "x"}]\<newline>```\<newline>Enjoy!''
     = js ''Here you go:\<newline>'' @ fence_json @ js ''[{"headline": "x"}]'' @ fence_close @ js ''\<newline>Enjoy!''\<close>
    by (simp add: js_def fence_consts)
  have o: "\<not> occurs fence_json (butlast (js ''Here you go:\<newline>'' @ fence_json))"
    by (simp add: js_def fence_consts)
  have p: \<open>JSON_parse ref_platform (js ''[{"headline": "x"}]'') = Some (JArr [JObj [(js ''headline'', JStr (js ''x''))]])\<close>
    unfolding ref_platform_def by (simp, code_simp)
  have i: "fst (map_ids 0 [JObj [(js ''headline'', JStr (js ''x''))]] (scripted []))
           = [JObj [(js ''id'', JNum 1760868000000), (js ''headline'', JStr (js ''x''))]]"
    by (simp add: Date_now_def scripted_def spread_into_def js_def)
  show ?thesis
    using fenced_json_first_block[OF d o ref_platform_no_newline_backtick p, of "scripted []"] d o p i
      ref_platform_no_newline_backtick
    by (simp only: fst_conv simp_thms)
qed

text \<open>
  C5. A text without code fencing (without three backticks in a row) that is a valid
  JSON array is parsed whole: \<open>articles\<close> is the parse of the entire text, and the
  extraction succeeds on that array.
\<close>

theorem bare_array_parsed_whole:
  assumes "\<not> occurs (js ''```'') text"
    and "JSON_parse P text = Some (JArr xs)"
  shows "jsonText text = text
       \<and> parse_articles P text = Some (JArr xs)
       \<and> extract_json P text w = (Inr (fst (map_ids 0 xs w)), snd (map_ids 0 xs w))"
proof -
  have "prefix (js ''```'') fence_json" "prefix (js ''```'') fence_plain"
    by (simp_all add: fence_consts js_def)
  with assms(1) have "\<not> occurs fence_json text" "\<not> occurs fence_plain text"
    using occurs_prefix_mono by blast+
  then have "jsonMatch text = None"
    by (simp add: jsonMatch_def fence_match_no_opener)
  then have t: "jsonText text = text" by (simp add: jsonText_def)
  with assms(2) show ?thesis
    by (simp add: extract_json_def parse_articles_def articlesWithIds_array)
qed

theorem bare_array_parsed_whole_witness:
  \<open>\<not> occurs (js ''```'') (js ''[{"headline": "x"}]'')
   \<and> JSON_parse ref_platform (js ''[{"headline": "x"}]'') = Some (JArr [JObj [(js ''headline'', JStr (js ''x''))]])
   \<and> jsonText (js ''[{"headline": "x"}]'') = js ''[{"headline": "x"}]''
   \<and> fst (extract_json ref_platform (js ''[{"headline": "x"}]'') (scripted []))
       = Inr [JObj [(js ''id'', JNum 1760868000000), (js ''headline'', JStr (js ''x''))]]\<close>
proof -
  have o: \<open>\<not> occurs (js ''```'') (js ''[{"headline": "x"}]'')\<close>
    by (simp add: js_def)
  have p: \<open>JSON_parse ref_platform (js ''[{"headline": "x"}]'') = Some (JArr [JObj [(js ''headline'', JStr (js ''x''))]])\<close>
    unfolding ref_platform_def by (simp, code_simp)
  have i: "fst (map_ids 0 [JObj [(js ''headline'', JStr (js ''x''))]] (scripted []))
           = [JObj [(js ''id'', JNum 1760868000000), (js ''headline'', JStr (js ''x''))]]"
    by (simp add: Date_now_def scripted_def spread_into_def js_def)
  show ?thesis
    using bare_array_parsed_whole[OF o p, of "scripted []"] o p i
    by (simp only: fst_conv simp_thms)
qed

text \<open>
  C10, as the claim states it, fails: a text may hold a one-line fenced block and
  still match the expressions elsewhere. Here the closing delimiter of the one-line
  block is followed by a line break and a later line starts with three backticks, so
  the second expression matches and \<open>[2]\<close> is parsed, not the entire text.
\<close>

theorem single_line_fence_counterexample:
  \<open>js ''```json [1] ```\<newline>[2]\<newline>```''
     = [] @ js ''```'' @ js ''json [1] '' @ js ''```'' @ js ''\<newline>[2]\<newline>```''
   \<and> \<not> prefix (js ''\<newline>'') (js ''json [1] '')
   \<and> \<not> prefix (js ''json\<newline>'') (js ''json [1] '')
   \<and> jsonMatch (js ''```json [1] ```\<newline>[2]\<newline>```'') = Some (js ''[2]'')
   \<and> parse_articles ref_platform (js ''```json [1] ```\<newline>[2]\<newline>```'') = Some (JArr [JNum 2])
   \<and> JSON_parse ref_platform (js ''```json [1] ```\<newline>[2]\<newline>```'') = None\<close>
proof -
  have m: "jsonMatch (js ''```json [1] ```\<newline>[2]\<newline>```'') = Some (js ''[2]'')"
    by (simp add: jsonMatch_def fence_consts js_def)
  have p1: "json_parse (js ''[2]'') = Some (JArr [JNum 2])" by code_simp
  have p2: "json_parse (js ''```json [1] ```\<newline>[2]\<newline>```'') = None" by code_simp
  show ?thesis
    by (simp add: parse_articles_def jsonText_def m p1 p2 ref_platform_def) (simp add: js_def)
qed

text \<open>
  C10, amended. In a text whose only backticks are the opening and the closing
  delimiter of one fenced block, if the opening delimiter (with its optional
  \<open>json\<close> tag) is not immediately followed by a line feed, or the closing one is
  not immediately preceded by a line feed, then neither expression matches and the
  entire text is what \<open>JSON.parse\<close> is given.
\<close>

theorem single_line_fence_not_recognised:
  assumes "text = pre @ js ''```'' @ inner @ js ''```'' @ post"
    and "0x60 \<notin> set pre" and "0x60 \<notin> set inner" and "0x60 \<notin> set post"
    and "(\<not> prefix (js ''\<newline>'') inner \<and> \<not> prefix (js ''json\<newline>'') inner)
         \<or> \<not> suffix (js ''\<newline>'') inner"
  shows "jsonMatch text = None \<and> jsonText text = text
       \<and> parse_articles P text = JSON_parse P text"
proof -
  have decomp: "text = pre @ 0x60 # 0x60 # 0x60 # inner @ 0x60 # 0x60 # 0x60 # post"
    using assms(1) by (simp add: js_def)
  have h1: "\<not> (prefix ([0x6A, 0x73, 0x6F, 0x6E] @ [0x0A]) inner \<and> suffix [0x0A] inner)"
    using assms(5) by (auto simp: js_def)
  have h2: "\<not> (prefix ([] @ [0x0A]) inner \<and> suffix [0x0A] inner)"
    using assms(5) by (auto simp: js_def)
  have "fence_match (0x60 # 0x60 # 0x60 # [0x6A, 0x73, 0x6F, 0x6E] @ [0x0A]) [0x0A, 0x60, 0x60, 0x60] text = None"
    unfolding decomp using assms(2-4) _ _ h1 by (rule single_fence_unrecognised) simp_all
  moreover have "fence_match (0x60 # 0x60 # 0x60 # [] @ [0x0A]) [0x0A, 0x60, 0x60, 0x60] text = None"
    unfolding decomp using assms(2-4) _ _ h2 by (rule single_fence_unrecognised) simp_all
  ultimately have "jsonMatch text = None"
    by (simp add: jsonMatch_def fence_consts)
  then show ?thesis by (simp add: jsonText_def parse_articles_def)
qed

theorem single_line_fence_not_recognised_witness:
  \<open>js ''Sure: ```json [1] ``` done'' = js ''Sure: '' @ js ''```'' @ js ''json [1] '' @ js ''```'' @ js '' done''
   \<and> 0x60 \<notin> set (js ''Sure: '') \<and> 0x60 \<notin> set (js ''json [1] '') \<and> 0x60 \<notin> set (js '' done'')
   \<and> \<not> prefix (js ''\<newline>'') (js ''json [1] '') \<and> \<not> prefix (js ''json\<newline>'') (js ''json [1] '')
   \<and> jsonText (js ''Sure: ```json [1] ``` done'') = js ''Sure: ```json [1] ``` done''
   \<and> parse_articles ref_platform (js ''Sure: ```json [1] ``` done'') = None\<close>
proof -
  have d: "js ''Sure: ```json [1] ``` done'' = js ''Sure: '' @ js ''```'' @ js ''json [1] '' @ js ''```'' @ js '' done''"
    by (simp add: js_def)
  have t: "0x60 \<notin> set (js ''Sure: '')" "0x60 \<notin> set (js ''json [1] '')" "0x60 \<notin> set (js '' done'')"
    by (simp_all add: js_def)
  have n: "\<not> prefix (js ''\<newline>'') (js ''json [1] '')" "\<not> prefix (js ''json\<newline>'') (js ''json [1] '')"
    by (simp_all add: js_def)
  have p: "JSON_parse ref_platform (js ''Sure: ```json [1] ``` done'') = None"
    unfolding ref_platform_def by (simp, code_simp)
  show ?thesis
    using single_line_fence_not_recognised[OF d t, of ref_platform] d t n p
    by (simp only: simp_thms)
qed


section \<open>Properties of the fallback loop\<close>

lemma failed_models_append: "failed_models (a @ b) = failed_models a @ failed_models b"
  by (simp add: failed_models_def map_filter_def)

lemma map_ids_clock:
  "clock w = clock w' \<Longrightarrow> ticks w = ticks w' \<Longrightarrow>
   fst (map_ids i xs w) = fst (map_ids i xs w')"
proof (induction xs arbitrary: i w w')
  case Nil
  then show ?case by simp
next
  case (Cons a xs)
  have "fst (map_ids (Suc i) xs (w\<lparr>ticks := Suc (ticks w)\<rparr>))
        = fst (map_ids (Suc i) xs (w'\<lparr>ticks := Suc (ticks w')\<rparr>))"
    using Cons.prems by (intro Cons.IH) simp_all
  with Cons.prems show ?case by (simp add: Date_now_def case_prod_beta)
qed

lemma map_ids_world:
  "requests (snd (map_ids i xs w)) = requests w
   \<and> console (snd (map_ids i xs w)) = console w
   \<and> upstream (snd (map_ids i xs w)) = upstream w
   \<and> clock (snd (map_ids i xs w)) = clock w
   \<and> ticks (snd (map_ids i xs w)) = ticks w + length xs"
  by (induction xs arbitrary: i w) (simp_all add: Date_now_def case_prod_beta)

lemma entry_dichotomy: "entry_fails P out \<longleftrightarrow> entry_articles P out = None"
  by (cases "(P, out)" rule: entry_articles.cases) (auto simp: entry_fails_def)

lemma extract_json_None:
  "text_articles P data = None \<Longrightarrow> generatedText_of data = Inr (Val (JStr t)) \<Longrightarrow>
   \<exists>e. extract_json P t w = (Inl e, w)"
  by (auto simp: text_articles_def extract_json_def articlesWithIds_def
      split: option.splits json.splits)

lemma extract_json_Some:
  "text_articles P data = Some xs \<Longrightarrow>
   \<exists>t. generatedText_of data = Inr (Val (JStr t))
      \<and> extract_json P t w = (Inr (fst (map_ids 0 xs w)), snd (map_ids 0 xs w))"
  by (auto simp: text_articles_def extract_json_def articlesWithIds_def
      split: option.splits json.splits sum.splits jsval.splits prod.splits)


lemma console_log_proj [simp]:
  "console (console_log e w) = console w @ [e]"
  "requests (console_log e w) = requests w"
  "upstream (console_log e w) = upstream w"
  "clock (console_log e w) = clock w"
  "ticks (console_log e w) = ticks w"
  by (simp_all add: console_log_def)

lemma fetch_proj [simp]:
  "fst (fetch model pr w) = upstream w (length (requests w)) model pr"
  "console (snd (fetch model pr w)) = console w"
  "requests (snd (fetch model pr w)) = requests w @ [(model, pr)]"
  "upstream (snd (fetch model pr w)) = upstream w"
  "clock (snd (fetch model pr w)) = clock w"
  "ticks (snd (fetch model pr w)) = ticks w"
  by (simp_all add: fetch_def)

lemma failed_models_simps [simp]:
  "failed_models [] = []"
  "failed_models (Trying m # xs) = failed_models xs"
  "failed_models (Success m # xs) = failed_models xs"
  "failed_models (Failed m msg # xs) = m # failed_models xs"
  "failed_models (Errored m e # xs) = m # failed_models xs"
  "failed_models (ys @ zs) = failed_models ys @ failed_models zs"
  by (simp_all add: failed_models_def map_filter_def)

lemma on_failure_fails: "fails_with model w (on_failure P model data w)"
  by (cases "ebind (error_message data) (ToString P)")
     (simp_all add: on_failure_def fails_with_def)

lemma on_success_fails:
  assumes "text_articles P data = None"
  shows "fails_with model w (on_success P model data w)"
proof -
  let ?w3 = "console_log (Success model) w"
  have "\<exists>e. on_success P model data w = (Inl e, ?w3)"
  proof (cases "generatedText_of data")
    case (Inl e)
    then show ?thesis by (simp add: on_success_def)
  next
    case (Inr v)
    show ?thesis
    proof (cases "\<exists>t. v = Val (JStr t)")
      case True
      then obtain t where t: "v = Val (JStr t)" by blast
      with Inr extract_json_None[OF assms, of t ?w3] obtain e where
        "extract_json P t ?w3 = (Inl e, ?w3)" by blast
      with Inr t show ?thesis by (simp add: on_success_def)
    next
      case False
      with Inr show ?thesis
        by (cases v; cases "case v of Val j \<Rightarrow> j") (simp_all add: on_success_def)
    qed
  qed
  then show ?thesis by (auto simp: fails_with_def)
qed

lemma on_success_returns:
  assumes "text_articles P data = Some xs"
  shows "fst (on_success P model data w)
         = Inr (Some \<lparr>status = 200, body = JArr (fst (map_ids 0 xs w))\<rparr>)"
    and "requests (snd (on_success P model data w)) = requests w"
    and "failed_models (console (snd (on_success P model data w))) = failed_models (console w)"
proof -
  let ?w3 = "console_log (Success model) w"
  from extract_json_Some[OF assms, of ?w3] obtain t where
    t: "generatedText_of data = Inr (Val (JStr t))"
    and e: "extract_json P t ?w3 = (Inr (fst (map_ids 0 xs ?w3)), snd (map_ids 0 xs ?w3))"
    by blast
  have r: "on_success P model data w
        = (Inr (Some \<lparr>status = 200, body = JArr (fst (map_ids 0 xs ?w3))\<rparr>),
           snd (map_ids 0 xs ?w3))"
    by (simp add: on_success_def t e)
  have "fst (map_ids 0 xs ?w3) = fst (map_ids 0 xs w)"
    by (rule map_ids_clock) simp_all
  with r show "fst (on_success P model data w)
         = Inr (Some \<lparr>status = 200, body = JArr (fst (map_ids 0 xs w))\<rparr>)" by simp
  show "requests (snd (on_success P model data w)) = requests w"
    by (simp add: r map_ids_world)
  show "failed_models (console (snd (on_success P model data w))) = failed_models (console w)"
    by (simp add: r map_ids_world)
qed

lemma try_body_fails:
  assumes "entry_fails P (upstream w (length (requests w)) model pr)"
  shows "fails_with model (snd (fetch model pr (console_log (Trying model) w)))
           (try_body P pr model w)"
proof -
  let ?w2 = "snd (fetch model pr (console_log (Trying model) w))"
  let ?out = "upstream w (length (requests w)) model pr"
  have tb: "try_body P pr model w =
     (case ?out of
        Rejected e \<Rightarrow> (Inl e, ?w2)
      | Response ok parsed \<Rightarrow>
          (case parsed of
             Inl e \<Rightarrow> (Inl e, ?w2)
           | Inr data \<Rightarrow> if \<not> ok then on_failure P model data ?w2
                        else on_success P model data ?w2))"
    by (simp add: try_body_def case_prod_beta Let_def)
  show ?thesis
  proof (cases ?out)
    case (Rejected e)
    then show ?thesis by (simp add: tb fails_with_def)
  next
    case (Response ok parsed)
    show ?thesis
    proof (cases parsed)
      case (Inl e)
      with Response show ?thesis by (simp add: tb fails_with_def)
    next
      case (Inr data)
      show ?thesis
      proof (cases ok)
        case False
        with Response Inr show ?thesis by (simp add: tb on_failure_fails)
      next
        case True
        with assms Response Inr have "text_articles P data = None"
          by (simp add: entry_fails_def)
        with Response Inr True show ?thesis by (simp add: tb on_success_fails)
      qed
    qed
  qed
qed

lemma attempt_fails:
  assumes "entry_fails P (upstream w (length (requests w)) model pr)"
  shows "fst (attempt P pr model w) = None"
    and "requests (snd (attempt P pr model w)) = requests w @ [(model, pr)]"
    and "failed_models (console (snd (attempt P pr model w)))
         = failed_models (console w) @ [model]"
    and "upstream (snd (attempt P pr model w)) = upstream w"
    and "clock (snd (attempt P pr model w)) = clock w"
    and "ticks (snd (attempt P pr model w)) = ticks w"
  using try_body_fails[OF assms]
  by (auto simp: attempt_def fails_with_def split: prod.splits sum.splits)

lemma attempt_returns:
  assumes "entry_articles P (upstream w (length (requests w)) model pr) = Some xs"
  shows "fst (attempt P pr model w)
         = Some \<lparr>status = 200, body = JArr (fst (map_ids 0 xs w))\<rparr>"
    and "requests (snd (attempt P pr model w)) = requests w @ [(model, pr)]"
    and "failed_models (console (snd (attempt P pr model w))) = failed_models (console w)"
proof -
  let ?w2 = "snd (fetch model pr (console_log (Trying model) w))"
  let ?out = "upstream w (length (requests w)) model pr"
  from assms obtain data where out: "?out = Response True (Inr data)"
    and ta: "text_articles P data = Some xs"
    by (cases "(P, ?out)" rule: entry_articles.cases) (auto split: if_splits)
  have tb: "try_body P pr model w = on_success P model data ?w2"
    by (simp add: try_body_def case_prod_beta Let_def out)
  have "fst (map_ids 0 xs ?w2) = fst (map_ids 0 xs w)"
    by (rule map_ids_clock) simp_all
  with on_success_returns[OF ta, of model ?w2]
  show "fst (attempt P pr model w)
         = Some \<lparr>status = 200, body = JArr (fst (map_ids 0 xs w))\<rparr>"
    and "requests (snd (attempt P pr model w)) = requests w @ [(model, pr)]"
    and "failed_models (console (snd (attempt P pr model w))) = failed_models (console w)"
    by (auto simp: attempt_def tb split: prod.splits sum.splits)
qed

lemma try_models_all_fail:
  assumes "\<forall>k<length ms. entry_fails P (upstream w (length (requests w) + k) (ms ! k) pr)"
  shows "fst (try_models P pr ms w) = all_failed
       \<and> requests (snd (try_models P pr ms w)) = requests w @ map (\<lambda>m. (m, pr)) ms
       \<and> failed_models (console (snd (try_models P pr ms w))) = failed_models (console w) @ ms
       \<and> upstream (snd (try_models P pr ms w)) = upstream w
       \<and> clock (snd (try_models P pr ms w)) = clock w
       \<and> ticks (snd (try_models P pr ms w)) = ticks w"
  using assms
proof (induction ms arbitrary: w)
  case Nil
  then show ?case by simp
next
  case (Cons m ms)
  let ?w1 = "snd (attempt P pr m w)"
  from Cons.prems have f0: "entry_fails P (upstream w (length (requests w)) m pr)"
    by force
  note a = attempt_fails[OF f0]
  have "\<forall>k<length ms. entry_fails P (upstream ?w1 (length (requests ?w1) + k) (ms ! k) pr)"
  proof (intro allI impI)
    fix k assume "k < length ms"
    with Cons.prems have "entry_fails P (upstream w (length (requests w) + Suc k) ((m # ms) ! Suc k) pr)"
      by (metis Suc_less_eq length_Cons)
    then show "entry_fails P (upstream ?w1 (length (requests ?w1) + k) (ms ! k) pr)"
      by (simp add: a)
  qed
  from Cons.IH[OF this] have ih:
    "fst (try_models P pr ms ?w1) = all_failed"
    "requests (snd (try_models P pr ms ?w1)) = requests ?w1 @ map (\<lambda>m. (m, pr)) ms"
    "failed_models (console (snd (try_models P pr ms ?w1))) = failed_models (console ?w1) @ ms"
    "upstream (snd (try_models P pr ms ?w1)) = upstream ?w1"
    "clock (snd (try_models P pr ms ?w1)) = clock ?w1"
    "ticks (snd (try_models P pr ms ?w1)) = ticks ?w1"
    by blast+
  have "try_models P pr (m # ms) w = try_models P pr ms ?w1"
    using a(1) by (cases "attempt P pr m w") simp
  then show ?case by (simp add: ih a)
qed

lemma try_models_append:
  assumes "\<forall>k<length fs. entry_fails P (upstream w (length (requests w) + k) (fs ! k) pr)"
  shows "try_models P pr (fs @ ms) w = try_models P pr ms (snd (try_models P pr fs w))"
  using assms
proof (induction fs arbitrary: w)
  case Nil
  then show ?case by simp
next
  case (Cons m fs)
  let ?w1 = "snd (attempt P pr m w)"
  from Cons.prems have f0: "entry_fails P (upstream w (length (requests w)) m pr)"
    by force
  note a = attempt_fails[OF f0]
  have "\<forall>k<length fs. entry_fails P (upstream ?w1 (length (requests ?w1) + k) (fs ! k) pr)"
  proof (intro allI impI)
    fix k assume "k < length fs"
    with Cons.prems have "entry_fails P (upstream w (length (requests w) + Suc k) ((m # fs) ! Suc k) pr)"
      by (metis Suc_less_eq length_Cons)
    then show "entry_fails P (upstream ?w1 (length (requests ?w1) + k) (fs ! k) pr)"
      by (simp add: a)
  qed
  from Cons.IH[OF this] have "try_models P pr (fs @ ms) ?w1 = try_models P pr ms (snd (try_models P pr fs ?w1))" .
  moreover have "try_models P pr (m # fs @ ms) w = try_models P pr (fs @ ms) ?w1"
    using a(1) by (cases "attempt P pr m w") simp
  moreover have "try_models P pr (m # fs) w = try_models P pr fs ?w1"
    using a(1) by (cases "attempt P pr m w") simp
  ultimately show ?case by simp
qed

lemma generatedText_of_reply: "generatedText_of (reply t) = Inr (Val (JStr t))"
  by (simp add: generatedText_of_def reply_def js_def show_nat.simps digit_def)

lemma jsonText_plain: "\<not> occurs [0x60] t \<Longrightarrow> jsonText t = t"
proof -
  assume a: "\<not> occurs [0x60] t"
  have "prefix [0x60] fence_json" "prefix [0x60] fence_plain" by (simp_all add: fence_consts)
  with a have "\<not> occurs fence_json t" "\<not> occurs fence_plain t"
    using occurs_prefix_mono by blast+
  then show ?thesis by (simp add: jsonText_def jsonMatch_def fence_match_no_opener)
qed



text \<open>
  C2. When the entries before some entry all fail and that entry succeeds (a success
  status, and an article array extracted from its generated text), the loop returns
  that array with the identifiers added, as status 200; the calls made are those
  entries and the successful one, none after it, and the console records one failure
  for each entry before it: \<open>N - 1\<close> of them when the successful entry is the
  \<open>N\<close>-th.
\<close>

theorem first_success_returns:
  assumes "\<forall>k<length fs. entry_fails P (upstream w (length (requests w) + k) (fs ! k) pr)"
    and "entry_articles P (upstream w (length (requests w) + length fs) model pr) = Some xs"
  shows "fst (try_models P pr (fs @ model # rest) w)
           = \<lparr>status = 200, body = JArr (fst (map_ids 0 xs w))\<rparr>
       \<and> requests (snd (try_models P pr (fs @ model # rest) w))
           = requests w @ map (\<lambda>m. (m, pr)) (fs @ [model])
       \<and> failed_models (console (snd (try_models P pr (fs @ model # rest) w)))
           = failed_models (console w) @ fs"
proof -
  let ?w1 = "snd (try_models P pr fs w)"
  note f = try_models_all_fail[OF assms(1)]
  have "entry_articles P (upstream ?w1 (length (requests ?w1)) model pr) = Some xs"
    using assms(2) f by simp
  note a = attempt_returns[OF this]
  have "fst (map_ids 0 xs ?w1) = fst (map_ids 0 xs w)"
    by (rule map_ids_clock) (simp_all add: f)
  moreover have "try_models P pr (fs @ model # rest) w = try_models P pr (model # rest) ?w1"
    by (rule try_models_append[OF assms(1)])
  moreover have "try_models P pr (model # rest) ?w1
      = (\<lparr>status = 200, body = JArr (fst (map_ids 0 xs ?w1))\<rparr>, snd (attempt P pr model ?w1))"
    using a(1) by (cases "attempt P pr model ?w1") simp
  ultimately show ?thesis by (simp add: a f)
qed

theorem first_success_returns_witness:
  \<open>entry_fails ref_platform (Rejected TypeError)
   \<and> entry_fails ref_platform (Response False (Inr quota_error))
   \<and> entry_articles ref_platform
        (Response True (Inr (reply (js ''```json\<newline>[{"headline": "x"}]\<newline>```''))))
       = Some [JObj [(js ''headline'', JStr (js ''x''))]]
   \<and> fst (try_models ref_platform (prompt (js ''3'') (js ''cricket'')) models
        (scripted [Rejected TypeError, Response False (Inr quota_error),
                   Response True (Inr (reply (js ''```json\<newline>[{"headline": "x"}]\<newline>```'')))]))
       = \<lparr>status = 200,
          body = JArr [JObj [(js ''id'', JNum 1760868000000), (js ''headline'', JStr (js ''x''))]]\<rparr>
   \<and> requests (snd (try_models ref_platform (prompt (js ''3'') (js ''cricket'')) models
        (scripted [Rejected TypeError, Response False (Inr quota_error),
                   Response True (Inr (reply (js ''```json\<newline>[{"headline": "x"}]\<newline>```'')))])))
       = [(js ''gemini-2.5-flash'', prompt (js ''3'') (js ''cricket'')),
          (js ''gemini-2.0-flash'', prompt (js ''3'') (js ''cricket'')),
          (js ''gemini-flash-latest'', prompt (js ''3'') (js ''cricket''))]
   \<and> failed_models (console (snd (try_models ref_platform (prompt (js ''3'') (js ''cricket'')) models
        (scripted [Rejected TypeError, Response False (Inr quota_error),
                   Response True (Inr (reply (js ''```json\<newline>[{"headline": "x"}]\<newline>```'')))]))))
       = [js ''gemini-2.5-flash'', js ''gemini-2.0-flash'']\<close>
proof -
  let ?ok = \<open>Response True (Inr (reply (js ''```json\<newline>[{"headline": "x"}]\<newline>```'')))\<close>
  let ?outs = "[Rejected TypeError, Response False (Inr quota_error), ?ok]"
  let ?pr = "prompt (js ''3'') (js ''cricket'')"
  let ?fs = "[js ''gemini-2.5-flash'', js ''gemini-2.0-flash'']"
  let ?rest = "[js ''gemini-pro-latest'', js ''gemini-2.5-pro'', js ''gemini-pro'']"
  have e1: "entry_fails ref_platform (Rejected TypeError)"
    and e2: "entry_fails ref_platform (Response False (Inr quota_error))"
    by (simp_all add: entry_fails_def)
  have \<open>jsonText (js ''```json\<newline>[{"headline": "x"}]\<newline>```'') = js ''[{"headline": "x"}]''\<close>
    by (simp add: jsonText_def jsonMatch_def fence_consts js_def)
  moreover have \<open>json_parse (js ''[{"headline": "x"}]'') = Some (JArr [JObj [(js ''headline'', JStr (js ''x''))]])\<close>
    by code_simp
  ultimately have e3: "entry_articles ref_platform ?ok = Some [JObj [(js ''headline'', JStr (js ''x''))]]"
    by (simp add: text_articles_def generatedText_of_reply parse_articles_def ref_platform_def)
  have m: "?fs @ js ''gemini-flash-latest'' # ?rest = models" by (simp add: models_def)
  have r: "requests (scripted ?outs) = []" "console (scripted ?outs) = []"
    by (simp_all add: scripted_def)
  have h: "\<forall>k<length ?fs. entry_fails ref_platform
             (upstream (scripted ?outs) (length (requests (scripted ?outs)) + k) (?fs ! k) ?pr)"
  proof (intro allI impI)
    fix k assume "k < length ?fs"
    then consider "k = 0" | "k = 1" by fastforce
    then show "entry_fails ref_platform
             (upstream (scripted ?outs) (length (requests (scripted ?outs)) + k) (?fs ! k) ?pr)"
      by cases (simp_all add: scripted_def e1 e2)
  qed
  have s: "entry_articles ref_platform
             (upstream (scripted ?outs) (length (requests (scripted ?outs)) + length ?fs)
                (js ''gemini-flash-latest'') ?pr)
           = Some [JObj [(js ''headline'', JStr (js ''x''))]]"
    using e3 by (simp add: scripted_def)
  have i: "fst (map_ids 0 [JObj [(js ''headline'', JStr (js ''x''))]] (scripted ?outs))
           = [JObj [(js ''id'', JNum 1760868000000), (js ''headline'', JStr (js ''x''))]]"
    by (simp add: Date_now_def scripted_def spread_into_def js_def)
  show ?thesis
    using first_success_returns[OF h s, of ?rest, unfolded m] e1 e2 e3
    by (simp only: r i append_Nil simp_thms list.map append_Cons failed_models_simps(1))
qed

lemma try_models_first_returns:
  assumes "entry_articles P (upstream w (length (requests w)) model pr) = Some xs"
  shows "fst (try_models P pr (model # rest) w)
         = \<lparr>status = 200, body = JArr (fst (map_ids 0 xs w))\<rparr>"
  using attempt_returns(1)[OF assms] by (cases "attempt P pr model w") simp

lemma attempt_requests:
  "requests (snd (attempt P pr model w)) = requests w @ [(model, pr)]"
proof (cases "entry_articles P (upstream w (length (requests w)) model pr)")
  case None
  then have "entry_fails P (upstream w (length (requests w)) model pr)"
    by (simp add: entry_dichotomy)
  then show ?thesis by (rule attempt_fails(2))
next
  case (Some xs)
  then show ?thesis by (rule attempt_returns(2))
qed


section \<open>Properties of the identifiers\<close>

lemma set_prop_other: "k \<noteq> k' \<Longrightarrow> map_of (set_prop kvs k' v) k = map_of kvs k"
  by (induction kvs) auto

lemma spread_other:
  "k \<notin> fst ` set props \<Longrightarrow>
   map_of (foldl (\<lambda>acc (k, v). set_prop acc k v) kvs props) k = map_of kvs k"
proof (induction props arbitrary: kvs)
  case Nil
  then show ?case by simp
next
  case (Cons p props)
  obtain k' v' where p: "p = (k', v')" by (cases p)
  with Cons.prems have "k \<noteq> k'" "k \<notin> fst ` set props" by auto
  with Cons.IH[of "set_prop kvs k' v'"] show ?case by (simp add: p set_prop_other)
qed

lemma id_of_spread:
  "\<not> has_own_id article \<Longrightarrow> id_of (spread_into [(js ''id'', v)] article) = Val v"
  using spread_other[of "js ''id''" "own_props article" "[(js ''id'', v)]"]
  by (simp add: has_own_id_def id_of_def spread_into_def) (simp add: js_def)

lemma map_ids_ids:
  assumes "\<forall>a\<in>set xs. \<not> has_own_id a"
  shows "map id_of (fst (map_ids i xs w))
         = map (\<lambda>j. Val (JNum (of_int (clock w (ticks w + j)) + of_nat (i + j)))) [0..<length xs]"
  using assms
proof (induction xs arbitrary: i w)
  case Nil
  then show ?case by simp
next
  case (Cons a xs)
  let ?w1 = "w\<lparr>ticks := Suc (ticks w)\<rparr>"
  from Cons.prems have na: "\<not> has_own_id a" and rest: "\<forall>a\<in>set xs. \<not> has_own_id a" by auto
  have "map id_of (fst (map_ids (Suc i) xs ?w1))
        = map (\<lambda>j. Val (JNum (of_int (clock w (ticks w + Suc j)) + of_nat (i + Suc j)))) [0..<length xs]"
    using Cons.IH[OF rest, of "Suc i" ?w1] by simp
  then show ?case
    using na by (simp add: Date_now_def case_prod_beta id_of_spread map_upt_Suc del: upt_Suc)
qed

lemma synthetic_ids_distinct:
  assumes "\<forall>a\<in>set xs. \<not> has_own_id a"
    and "\<forall>j k. j \<le> k \<and> k < length xs \<longrightarrow> clock w (ticks w + j) \<le> clock w (ticks w + k)"
  shows "distinct (map id_of (fst (map_ids 0 xs w)))"
proof -
  let ?f = "\<lambda>j. Val (JNum (of_int (clock w (ticks w + j)) + of_nat (0 + j)))"
  have "inj_on ?f (set [0..<length xs])"
  proof (rule inj_onI)
    fix j k assume j: "j \<in> set [0..<length xs]" and k: "k \<in> set [0..<length xs]"
      and e: "?f j = ?f k"
    from e have "(of_int (clock w (ticks w + j) + int j) :: rat) = of_int (clock w (ticks w + k) + int k)"
      by simp
    then have eq: "clock w (ticks w + j) + int j = clock w (ticks w + k) + int k"
      by (simp only: of_int_eq_iff)
    show "j = k"
    proof (rule ccontr)
      assume "j \<noteq> k"
      then consider "j < k" | "k < j" by linarith
      then show False
      proof cases
        case 1
        with assms(2) k have "clock w (ticks w + j) \<le> clock w (ticks w + k)" by simp
        with 1 eq show False by linarith
      next
        case 2
        with assms(2) j have "clock w (ticks w + k) \<le> clock w (ticks w + j)" by simp
        with 2 eq show False by linarith
      qed
    qed
  qed
  then have "distinct (map ?f [0..<length xs])" by (simp add: distinct_map)
  with map_ids_ids[OF assms(1), of 0 w] show ?thesis by simp
qed

text \<open>
  C6. The claim does not hold of the code. The object literal puts the spread after
  \<open>id\<close>, so an \<open>id\<close> that an article brings along replaces the one computed from
  the clock and the index. Here the upstream returns two articles that both carry
  \<open>"id": 7\<close>: the batch is returned with status 200 and both of its records have
  the identifier 7. (For articles without an \<open>id\<close> of their own, and a clock that
  does not run backwards during the map, the identifiers are pairwise distinct:
  \<open>synthetic_ids_distinct\<close>.)
\<close>

theorem own_id_overrides_synthetic_id:
  \<open>fst (try_models ref_platform (prompt (js ''3'') (js ''cricket'')) models
          (scripted [Response True (Inr (reply
             (js ''[{"id": 7, "headline": "a"}, {"id": 7, "headline": "b"}]'')))]))
     = \<lparr>status = 200,
        body = JArr [JObj [(js ''id'', JNum 7), (js ''headline'', JStr (js ''a''))],
                     JObj [(js ''id'', JNum 7), (js ''headline'', JStr (js ''b''))]]\<rparr>
   \<and> map id_of [JObj [(js ''id'', JNum 7), (js ''headline'', JStr (js ''a''))],
                 JObj [(js ''id'', JNum 7), (js ''headline'', JStr (js ''b''))]]
     = [Val (JNum 7), Val (JNum 7)]\<close>
proof -
  let ?t = \<open>js ''[{"id": 7, "headline": "a"}, {"id": 7, "headline": "b"}]''\<close>
  let ?xs = "[JObj [(js ''id'', JNum 7), (js ''headline'', JStr (js ''a''))],
              JObj [(js ''id'', JNum 7), (js ''headline'', JStr (js ''b''))]]"
  let ?w = "scripted [Response True (Inr (reply ?t))]"
  have "jsonText ?t = ?t" by (rule jsonText_plain) (simp add: js_def)
  moreover have "json_parse ?t = Some (JArr ?xs)" by code_simp
  ultimately have "entry_articles ref_platform (Response True (Inr (reply ?t))) = Some ?xs"
    by (simp add: text_articles_def generatedText_of_reply parse_articles_def ref_platform_def)
  then have "entry_articles ref_platform
               (upstream ?w (length (requests ?w)) (js ''gemini-2.5-flash'')
                  (prompt (js ''3'') (js ''cricket''))) = Some ?xs"
    by (simp add: scripted_def)
  from try_models_first_returns[OF this]
  have "fst (try_models ref_platform (prompt (js ''3'') (js ''cricket'')) models ?w)
        = \<lparr>status = 200, body = JArr (fst (map_ids 0 ?xs ?w))\<rparr>"
    by (simp add: models_def)
  moreover have "fst (map_ids 0 ?xs ?w) = ?xs"
    by (simp add: Date_now_def scripted_def spread_into_def js_def)
  moreover have "map id_of ?xs = [Val (JNum 7), Val (JNum 7)]"
    by (simp add: id_of_def js_def)
  ultimately show ?thesis by (simp only: simp_thms)
qed


section \<open>Properties of the cache and the feed\<close>

text \<open>
  C7. Storing a batch replaces the cached value, whatever it was, by exactly that
  array, and answers with its length as \<open>count\<close>; reading the cache then gives the
  same array, in the same order. Storing an empty batch, or a body without
  \<open>articles\<close> (or with \<open>null\<close>), leaves the empty array and answers with count 0.
\<close>

theorem cache_replace_read:
  "update_cache (Val (JArr b)) old
     = (\<lparr>status = 200,
         body = JObj [(js ''success'', JBool True), (js ''count'', JNum (of_nat (length b)))]\<rparr>,
        JArr b)
   \<and> get_articles (snd (update_cache (Val (JArr b)) old)) = JArr b
   \<and> update_cache (Val (JArr [])) old
     = (\<lparr>status = 200, body = JObj [(js ''success'', JBool True), (js ''count'', JNum 0)]\<rparr>,
        JArr [])
   \<and> update_cache Undefined old
     = (\<lparr>status = 200, body = JObj [(js ''success'', JBool True), (js ''count'', JNum 0)]\<rparr>,
        JArr [])
   \<and> update_cache (Val JNull) old
     = (\<lparr>status = 200, body = JObj [(js ''success'', JBool True), (js ''count'', JNum 0)]\<rparr>,
        JArr [])
   \<and> get_articles (snd (update_cache Undefined old)) = JArr []"
  by (simp add: update_cache_def get_articles_def)

lemma map_err_total:
  assumes "\<forall>x\<in>set xs. \<exists>y. f x = Inr y"
  shows "\<exists>ys. map_err f xs = Inr ys \<and> length ys = length xs
              \<and> (\<forall>k<length xs. f (xs ! k) = Inr (ys ! k))"
  using assms
proof (induction xs)
  case Nil
  then show ?case by simp
next
  case (Cons x xs)
  then obtain y where y: "f x = Inr y" by auto
  from Cons obtain ys where ys: "map_err f xs = Inr ys" "length ys = length xs"
    "\<forall>k<length xs. f (xs ! k) = Inr (ys ! k)" by auto
  have "\<forall>k<length (x # xs). f ((x # xs) ! k) = Inr ((y # ys) ! k)"
    using y ys(3) by (auto simp: nth_Cons split: nat.splits)
  with y ys show ?case by (intro exI[of _ "y # ys"]) simp
qed

lemma count_occ_skip: "c \<notin> set t \<Longrightarrow> count_occ (c # p) (t @ s) = count_occ (c # p) s"
  by (induction t) auto

lemma item_tag_skip: "plain t \<Longrightarrow> count_occ item_tag (t @ s) = count_occ item_tag s"
  by (simp add: plain_def item_tag_def js_def count_occ_skip)

lemma item_tag_Nil: "count_occ item_tag [] = 0"
  by (simp add: item_tag_def js_def)

lemma item_tag_other: "x \<noteq> 0x3C \<Longrightarrow> count_occ item_tag (x # s) = count_occ item_tag s"
  by (simp add: item_tag_def js_def)

lemma item_tag_open: "y \<noteq> 0x69 \<Longrightarrow> count_occ item_tag (0x3C # y # s) = count_occ item_tag (y # s)"
  by (simp add: item_tag_def js_def)

lemma item_tag_here:
  "count_occ item_tag (0x3C # 0x69 # 0x74 # 0x65 # 0x6D # 0x3E # s) = Suc (count_occ item_tag s)"
  by (simp add: item_tag_def js_def)

lemma plain_resultE:
  assumes "plain_result r"
  obtains s where "r = Inr s" and "plain s"
  using assms by (cases r) (auto simp: plain_result_def)

lemma rss_item_plain:
  assumes "plain_entry P a" and "plain base"
  shows "\<exists>h u v. field P a (js ''headline'') = Inr h
           \<and> rss_item P base a = Inr (u @ js ''<title><![CDATA['' @ h @ js '']]></title>'' @ v)
           \<and> (\<forall>s. count_occ item_tag ((u @ js ''<title><![CDATA['' @ h @ js '']]></title>'' @ v) @ s)
                    = Suc (count_occ item_tag s))"
proof -
  from assms(1) have
    "plain_result (field P a (js ''headline''))"
    "plain_result (field P a (js ''summary''))"
    "plain_result (field P a (js ''author''))"
    "plain_result (field P a (js ''category''))"
    "plain_result (ebind (js_get (Val a) (js ''date'')) (pubDate P))"
    "plain_result (field P a (js ''id''))"
    by (simp_all add: plain_entry_def)
  then obtain h s au c d i where
    f: "field P a (js ''headline'') = Inr h"
    "field P a (js ''summary'') = Inr s"
    "field P a (js ''author'') = Inr au"
    "field P a (js ''category'') = Inr c"
    "ebind (js_get (Val a) (js ''date'')) (pubDate P) = Inr d"
    "field P a (js ''id'') = Inr i"
    and p: "plain h" "plain s" "plain au" "plain c" "plain d" "plain i"
    by (elim plain_resultE) blast
  let ?u = "js ''\<newline>    <item>\<newline>      ''"
  let ?v = \<open>js ''\<newline>      <description><![CDATA['' @ s @
          js '']]></description>\<newline>      <author>'' @ au @
          js ''</author>\<newline>      <category>'' @ c @
          js ''</category>\<newline>      <pubDate>'' @ d @
          js ''</pubDate>\<newline>      <guid isPermaLink="false">'' @ base @
          js ''/#article-'' @ i @
          js ''</guid>\<newline>    </item>''\<close>
  have r: "rss_item P base a = Inr (?u @ js ''<title><![CDATA['' @ h @ js '']]></title>'' @ ?v)"
    by (simp only: rss_item_def f ebind.simps) (simp add: js_def)
  have "count_occ item_tag ((?u @ js ''<title><![CDATA['' @ h @ js '']]></title>'' @ ?v) @ t)
        = Suc (count_occ item_tag t)" for t
    by (simp add: js_def item_tag_skip item_tag_other item_tag_open item_tag_here p assms(2)
          del: count_occ.simps)
  with f(1) r show ?thesis by blast
qed

lemma count_occ_join:
  assumes "\<forall>it\<in>set items. \<forall>s. count_occ p (it @ s) = Suc (count_occ p s)"
    and "\<forall>s. count_occ p (sep @ s) = count_occ p s"
  shows "count_occ p (join_with sep items @ rest) = length items + count_occ p rest"
  using assms
proof (induction sep items rule: join_with.induct)
  case (1 sep)
  then show ?case by simp
next
  case (2 sep x)
  then show ?case by simp
next
  case (3 sep x y ys)
  then have "count_occ p (join_with sep (y # ys) @ rest) = length (y # ys) + count_occ p rest"
    by simp
  moreover have "count_occ p (x @ sep @ join_with sep (y # ys) @ rest)
      = Suc (count_occ p (join_with sep (y # ys) @ rest))"
    using 3(2,3) by simp
  ultimately show ?case by simp
qed

lemma rssFeed_plain:
  assumes "rssItems P (baseUrl protocol host) b = Inr joined"
    and "plain (baseUrl protocol host)"
    and "plain (Date_toUTCString P (Val (JNum (of_int (clock w (ticks w))))))"
  shows "\<exists>pre post. fst (rssFeed P protocol host b w) = Inr (pre @ joined @ post)
           \<and> (\<forall>s. count_occ item_tag (pre @ s) = count_occ item_tag s)
           \<and> count_occ item_tag post = 0"
proof -
  let ?base = "baseUrl protocol host"
  let ?date = "Date_toUTCString P (Val (JNum (of_int (clock w (ticks w)))))"
  let ?pre = \<open>js ''<?xml version="1.0" encoding="UTF-8"?>\<newline><rss version="2.0" xmlns:atom="http://www.w3.org/2005/Atom">\<newline>  <channel>\<newline>    <title>The Briefing - India's Finest Satirical News</title>\<newline>    <link>'' @ ?base @
                      js ''</link>\<newline>    <description>Absurd, satirical news about India that will make you laugh and question reality</description>\<newline>    <language>en-in</language>\<newline>    <lastBuildDate>'' @
                      ?date @
                      js ''</lastBuildDate>\<newline>    <atom:link href="'' @ ?base @
                      js ''/rss" rel="self" type="application/rss+xml"/>\<newline>    ''\<close>
  let ?post = "js ''\<newline>  </channel>\<newline></rss>''"
  have "fst (rssFeed P protocol host b w) = Inr (?pre @ joined @ ?post)"
    by (simp add: rssFeed_def assms(1) Date_now_def Let_def)
  moreover have "count_occ item_tag (?pre @ s) = count_occ item_tag s" for s
    by (simp add: js_def item_tag_skip item_tag_other item_tag_open assms(2,3)
          del: count_occ.simps)
  moreover have "count_occ item_tag ?post = 0"
    by (simp add: js_def item_tag_Nil item_tag_other item_tag_open del: count_occ.simps)
  ultimately show ?thesis by blast
qed

text \<open>
  C8, as the claim states it, fails for some cached batches. The template inserts the
  texts of the fields as they are: an article whose author holds a closing and an
  opening tag of an item makes the document hold two item elements for one entry of
  the batch. And on a batch with the entry \<open>null\<close> the property read throws, so no
  document and no item is sent at all.
\<close>

theorem rss_item_count_counterexample:
  "is_article (JObj [(js ''author'', JStr (js ''</author></item><item><author>x''))])
   \<and> feed_item_count (fst (rssFeed ref_platform (js ''http'') (Some (js ''localhost:3000''))
        (JArr [JObj [(js ''author'', JStr (js ''</author></item><item><author>x''))]])
        (scripted [])))
       = Some 2
   \<and> min (length [JObj [(js ''author'', JStr (js ''</author></item><item><author>x''))]]) 20 = 1
   \<and> feed_item_count (fst (rssFeed ref_platform (js ''http'') (Some (js ''localhost:3000''))
        (JArr [JNull]) (scripted [])))
       = None"
proof -
  have 1: "is_article (JObj [(js ''author'', JStr (js ''</author></item><item><author>x''))])"
    by (simp add: is_article_def article_fields_def js_def)
  have 2: "feed_item_count (fst (rssFeed ref_platform (js ''http'') (Some (js ''localhost:3000''))
        (JArr [JObj [(js ''author'', JStr (js ''</author></item><item><author>x''))]])
        (scripted [])))
       = Some 2"
    by (simp add: feed_item_count_def rssFeed_def rssItems_def rss_item_list_def rss_item_def
          field_def pubDate_def baseUrl_def Date_now_def scripted_def ref_platform_def js_def
          item_tag_other item_tag_open item_tag_here item_tag_Nil Let_def
          del: count_occ.simps)
  have 3: "feed_item_count (fst (rssFeed ref_platform (js ''http'') (Some (js ''localhost:3000''))
        (JArr [JNull]) (scripted [])))
       = None"
    by (simp add: feed_item_count_def rssFeed_def rssItems_def rss_item_list_def rss_item_def
          field_def Let_def)
  from 1 2 3 show ?thesis by simp
qed

text \<open>
  C8, amended. When the base URL, the build date and, for each of the first twenty
  entries of the cached array, the six texts substituted into the item template are
  rendered without a \<open><\<close>, the document of the feed is a head, the items joined by
  line feeds, and a tail, where the items are \<open>min (length b) 20\<close> in number, the
  \<open>k\<close>-th item is the rendering of the \<open>k\<close>-th entry of the batch, with the headline
  of that entry in its title and one opening tag \<open><item>\<close> in it, and neither head
  nor tail holds such a tag: the document holds \<open>min (length b) 20\<close> item elements,
  in the order of the batch, unsorted. A batch of 25 gives 20 of them.
\<close>

theorem rss_first_twenty:
  assumes "plain (baseUrl protocol host)"
    and "plain (Date_toUTCString P (Val (JNum (of_int (clock w (ticks w))))))"
    and "\<forall>a\<in>set (take 20 b). plain_entry P a"
  shows "\<exists>items pre post.
           fst (rssFeed P protocol host (JArr b) w)
             = Inr (pre @ join_with (js ''\<newline>'') items @ post)
         \<and> count_occ item_tag pre = 0 \<and> count_occ item_tag post = 0
         \<and> length items = min (length b) 20
         \<and> (\<forall>k<length items.
               rss_item P (baseUrl protocol host) (b ! k) = Inr (items ! k)
             \<and> count_occ item_tag (items ! k) = 1
             \<and> (\<exists>h u v. field P (b ! k) (js ''headline'') = Inr h
                      \<and> items ! k = u @ js ''<title><![CDATA['' @ h @ js '']]></title>'' @ v))
         \<and> feed_item_count (fst (rssFeed P protocol host (JArr b) w)) = Some (min (length b) 20)"
proof -
  let ?base = "baseUrl protocol host"
  have each: "\<exists>h u v. field P a (js ''headline'') = Inr h
           \<and> rss_item P ?base a = Inr (u @ js ''<title><![CDATA['' @ h @ js '']]></title>'' @ v)
           \<and> (\<forall>s. count_occ item_tag ((u @ js ''<title><![CDATA['' @ h @ js '']]></title>'' @ v) @ s)
                    = Suc (count_occ item_tag s))"
    if "a \<in> set (take 20 b)" for a
    using that assms(1,3) rss_item_plain by blast
  then have "\<forall>a\<in>set (take 20 b). \<exists>s. rss_item P ?base a = Inr s" by blast
  from map_err_total[OF this] obtain items where
    i: "map_err (rss_item P ?base) (take 20 b) = Inr items"
    "length items = length (take 20 b)"
    "\<forall>k<length (take 20 b). rss_item P ?base (take 20 b ! k) = Inr (items ! k)" by blast
  have len: "length items = min (length b) 20" using i(2) by (simp add: min.commute)
  have item: "rss_item P ?base (b ! k) = Inr (items ! k)
             \<and> (\<forall>s. count_occ item_tag (items ! k @ s) = Suc (count_occ item_tag s))
             \<and> (\<exists>h u v. field P (b ! k) (js ''headline'') = Inr h
                      \<and> items ! k = u @ js ''<title><![CDATA['' @ h @ js '']]></title>'' @ v)"
    if k: "k < length items" for k
  proof -
    from k i(2) have kb: "k < length (take 20 b)" by simp
    then have r: "rss_item P ?base (b ! k) = Inr (items ! k)" using i(3) by simp
    from kb have "take 20 b ! k \<in> set (take 20 b)" by (rule nth_mem)
    moreover have "take 20 b ! k = b ! k" using kb by simp
    ultimately have "b ! k \<in> set (take 20 b)" by simp
    from each[OF this] r show ?thesis by auto
  qed
  have good: "\<forall>it\<in>set items. \<forall>s. count_occ item_tag (it @ s) = Suc (count_occ item_tag s)"
    using item by (auto simp: in_set_conv_nth)
  have "rssItems P ?base (JArr b) = Inr (join_with (js ''\<newline>'') items)"
    by (simp add: rssItems_def rss_item_list_def i(1))
  from rssFeed_plain[OF this assms(1,2)] obtain pre post where
    d: "fst (rssFeed P protocol host (JArr b) w) = Inr (pre @ join_with (js ''\<newline>'') items @ post)"
    and pre: "\<forall>s. count_occ item_tag (pre @ s) = count_occ item_tag s"
    and post: "count_occ item_tag post = 0" by blast
  have nl: "\<forall>s. count_occ item_tag (js ''\<newline>'' @ s) = count_occ item_tag s"
    by (simp add: js_def item_tag_other del: count_occ.simps)
  have "count_occ item_tag (join_with (js ''\<newline>'') items @ post) = length items"
    using count_occ_join[of items item_tag "js ''\<newline>''" post, OF good nl] post by simp
  then have total: "count_occ item_tag (pre @ join_with (js ''\<newline>'') items @ post) = length items"
    using pre by simp
  have pre0: "count_occ item_tag pre = 0" using pre[rule_format, of "[]"] by (simp add: item_tag_Nil del: count_occ.simps)
  have items1: "\<forall>k<length items.
               rss_item P ?base (b ! k) = Inr (items ! k)
             \<and> count_occ item_tag (items ! k) = 1
             \<and> (\<exists>h u v. field P (b ! k) (js ''headline'') = Inr h
                      \<and> items ! k = u @ js ''<title><![CDATA['' @ h @ js '']]></title>'' @ v)"
  proof (intro allI impI)
    fix k assume k: "k < length items"
    from item[OF k] have "count_occ item_tag (items ! k @ []) = Suc (count_occ item_tag [])" by blast
    then have "count_occ item_tag (items ! k) = 1" by (simp add: item_tag_Nil del: count_occ.simps)
    with item[OF k] show "rss_item P ?base (b ! k) = Inr (items ! k)
             \<and> count_occ item_tag (items ! k) = 1
             \<and> (\<exists>h u v. field P (b ! k) (js ''headline'') = Inr h
                      \<and> items ! k = u @ js ''<title><![CDATA['' @ h @ js '']]></title>'' @ v)"
      by blast
  qed
  have "feed_item_count (fst (rssFeed P protocol host (JArr b) w)) = Some (min (length b) 20)"
    by (simp add: feed_item_count_def d total len)
  with d pre0 post len items1 show ?thesis by blast
qed

theorem rss_first_twenty_witness:
  "plain (baseUrl (js ''http'') (Some (js ''localhost:3000'')))
   \<and> plain (Date_toUTCString ref_platform
               (Val (JNum (of_int (clock (scripted []) (ticks (scripted [])))))))
   \<and> list_all (plain_entry ref_platform)
        (take 20 (replicate 25 (JObj [(js ''headline'', JStr (js ''x''))])))
   \<and> feed_item_count (fst (rssFeed ref_platform (js ''http'') (Some (js ''localhost:3000''))
                              (JArr (replicate 25 (JObj [(js ''headline'', JStr (js ''x''))])))
                              (scripted [])))
       = Some 20"
proof -
  let ?a = "JObj [(js ''headline'', JStr (js ''x''))]"
  have b: "plain (baseUrl (js ''http'') (Some (js ''localhost:3000'')))"
    by (simp add: plain_def baseUrl_def js_def)
  have d: "plain (Date_toUTCString ref_platform
               (Val (JNum (of_int (clock (scripted []) (ticks (scripted [])))))))"
    by (simp add: plain_def ref_platform_def js_def)
  have a: "plain_entry ref_platform ?a"
    by (simp add: plain_entry_def plain_result_def plain_def field_def pubDate_def
          ref_platform_def js_def)
  then have h: "\<forall>a\<in>set (take 20 (replicate 25 ?a)). plain_entry ref_platform a" by simp
  from rss_first_twenty[OF b d h]
  have "feed_item_count (fst (rssFeed ref_platform (js ''http'') (Some (js ''localhost:3000''))
                              (JArr (replicate 25 ?a)) (scripted [])))
       = Some (min (length (replicate 25 ?a)) 20)"
    by blast
  with b d a show ?thesis by (simp add: list_all_iff)
qed


section \<open>Properties of the binary64 product\<close>

lemma bit_length_bounds:
  "0 < n \<Longrightarrow> 2 ^ (bit_length n - 1) \<le> n \<and> n < 2 ^ bit_length n"
proof (induction n rule: bit_length.induct)
  case (1 n)
  show ?case
  proof (cases "n div 2 = 0")
    case True
    with "1.prems" have "n = 1" by (auto simp: div_eq_0_iff)
    then show ?thesis by (simp add: bit_length.simps)
  next
    case False
    then have m: "0 < n div 2" by simp
    from "1.IH" "1.prems" m
    have ih: "2 ^ (bit_length (n div 2) - 1) \<le> n div 2" "n div 2 < 2 ^ bit_length (n div 2)"
      by auto
    have b: "bit_length n = Suc (bit_length (n div 2))"
      using "1.prems" by (subst bit_length.simps) simp
    have pos: "0 < bit_length (n div 2)"
      using m by (subst bit_length.simps) simp
    have "(2::nat) ^ bit_length (n div 2) = 2 * 2 ^ (bit_length (n div 2) - 1)"
      using pos by (cases "bit_length (n div 2)") simp_all
    then have "(2::nat) ^ bit_length (n div 2) \<le> 2 * (n div 2)" using ih(1) by simp
    also have "\<dots> \<le> n" by simp
    finally have lo: "2 ^ (bit_length n - 1) \<le> n" by (simp add: b)
    have "n div 2 + 1 \<le> 2 ^ bit_length (n div 2)" using ih(2) by simp
    then have "2 * (n div 2) + 2 \<le> 2 * 2 ^ bit_length (n div 2)" by simp
    moreover have "n < 2 * (n div 2) + 2" by presburger
    ultimately have "n < 2 ^ bit_length n" by (simp add: b)
    with lo show ?thesis by simp
  qed
qed

lemma binade_bounds:
  assumes "0 < x"
  shows "2 powi binade x \<le> x" and "x < 2 powi (binade x + 1)"
proof -
  have "2 powi binade x \<le> x \<and> x < 2 powi (binade x + 1)"
  proof (cases "1 \<le> x")
    case True
    let ?n = "nat \<lfloor>x\<rfloor>"
    let ?b = "bit_length ?n"
    from True have n: "0 < ?n" by simp
    from bit_length_bounds[OF n] have b: "2 ^ (?b - 1) \<le> ?n" "?n < 2 ^ ?b" by auto
    have bpos: "0 < ?b" using n by (subst bit_length.simps) simp
    have e: "binade x = int ?b - 1" using True by (simp add: binade_def)
    have "(2::rat) ^ (?b - 1) = of_nat (2 ^ (?b - 1))" by simp
    also have "\<dots> \<le> of_nat ?n" using b(1) by (simp only: of_nat_le_iff)
    also have "\<dots> = of_int \<lfloor>x\<rfloor>" using True by simp
    also have "\<dots> \<le> x" by simp
    finally have lo: "(2::rat) ^ (?b - 1) \<le> x" .
    have "?n + 1 \<le> 2 ^ ?b" using b(2) by linarith
    then have "(of_nat (?n + 1) :: rat) \<le> of_nat (2 ^ ?b)" by (simp only: of_nat_le_iff)
    then have "of_int \<lfloor>x\<rfloor> + 1 \<le> (2::rat) ^ ?b" using True by simp
    moreover have "x < of_int \<lfloor>x\<rfloor> + 1" by linarith
    ultimately have hi: "x < (2::rat) ^ ?b" by linarith
    have p1: "(2::rat) powi (int ?b - 1) = 2 ^ (?b - 1)"
      using bpos by (simp add: power_int_def nat_diff_distrib')
    have p2: "(2::rat) powi (int ?b - 1 + 1) = 2 ^ ?b"
      by (simp add: power_int_def)
    from lo hi show ?thesis by (simp only: e p1 p2 simp_thms)
  next
    case False
    then have x1: "x < 1" by simp
    let ?y = "1 / x"
    let ?m = "\<lceil>?y\<rceil>"
    let ?n = "nat (?m - 1)"
    let ?b = "bit_length ?n"
    have y1: "1 < ?y" using assms x1 by simp
    then have m2: "2 \<le> ?m" by (simp add: le_ceiling_iff) 
    then have n: "0 < ?n" by simp
    from bit_length_bounds[OF n] have b: "2 ^ (?b - 1) \<le> ?n" "?n < 2 ^ ?b" by auto
    have bpos: "0 < ?b" using n by (subst bit_length.simps) simp
    have e: "binade x = - int ?b" using False by (simp add: binade_def)
    have "(2::rat) ^ (?b - 1) = of_nat (2 ^ (?b - 1))" by simp
    also have "\<dots> \<le> of_nat ?n" using b(1) by (simp only: of_nat_le_iff)
    also have "\<dots> = of_int (?m - 1)" using m2 by (intro of_nat_nat) linarith
    also have "\<dots> = of_int ?m - 1" by simp
    also have "\<dots> < ?y" by linarith
    finally have lo: "(2::rat) ^ (?b - 1) < ?y" .
    have "?n + 1 \<le> 2 ^ ?b" using b(2) by linarith
    then have "(of_nat (?n + 1) :: rat) \<le> of_nat (2 ^ ?b)" by (simp only: of_nat_le_iff)
    moreover have "(of_nat (?n + 1) :: rat) = of_int ?m"
    proof -
      have "(of_nat ?n :: rat) = of_int (?m - 1)" using m2 by (intro of_nat_nat) linarith
      then show ?thesis by simp
    qed
    ultimately have "of_int ?m \<le> (2::rat) ^ ?b" by simp
    moreover have "?y \<le> of_int ?m" by simp
    ultimately have hi: "?y \<le> (2::rat) ^ ?b" by linarith
    have "1 / (2::rat) ^ ?b \<le> x"
      using hi assms by (simp add: field_simps)
    moreover have "x < 1 / (2::rat) ^ (?b - 1)"
      using lo assms by (simp add: field_simps)
    moreover have "(2::rat) powi (- int ?b) = 1 / 2 ^ ?b"
      by (simp add: power_int_def field_simps)
    moreover have "(2::rat) powi (- int ?b + 1) = 1 / 2 ^ (?b - 1)"
      using bpos by (cases ?b) (simp_all add: power_int_def field_simps)
    ultimately show ?thesis by (simp only: e simp_thms)
  qed
  then show "2 powi binade x \<le> x" and "x < 2 powi (binade x + 1)" by simp_all
qed

lemma round_half_even_ge: "of_int m \<le> y \<Longrightarrow> m \<le> round_half_even y"
proof -
  assume "of_int m \<le> y"
  then have "m \<le> \<lfloor>y\<rfloor>" by (simp add: le_floor_iff)
  then show ?thesis by (auto simp: round_half_even_def Let_def)
qed

lemma round_half_even_le: "y \<le> of_int m \<Longrightarrow> round_half_even y \<le> m"
proof -
  assume a: "y \<le> of_int m"
  show ?thesis
  proof (cases "y = of_int m")
    case True
    then show ?thesis by (simp add: round_half_even_def)
  next
    case False
    with a have "y < of_int m" by simp
    then have "\<lfloor>y\<rfloor> < m" by (simp add: floor_less_iff)
    then show ?thesis by (auto simp: round_half_even_def Let_def)
  qed
qed

lemma round_half_even_threshold:
  assumes "even n"
  shows "n \<le> round_half_even y \<longleftrightarrow> of_int n - 1 / 2 \<le> y"
proof -
  let ?f = "\<lfloor>y\<rfloor>"
  have f: "of_int ?f \<le> y" "y < of_int ?f + 1" by linarith+
  consider "n \<le> ?f" | "?f = n - 1" | "?f \<le> n - 2" by linarith
  then show ?thesis
  proof cases
    case 1
    then have "(of_int n :: rat) \<le> of_int ?f" by (simp only: of_int_le_iff)
    with f have "of_int n - 1 / 2 \<le> y" by linarith
    moreover have "n \<le> round_half_even y" using 1 by (auto simp: round_half_even_def Let_def)
    ultimately show ?thesis by simp
  next
    case 2
    then have o: "odd ?f" using assms by simp
    have ff: "(of_int ?f :: rat) = of_int n - 1" using 2 by simp
    show ?thesis
    proof (cases "y - of_int ?f < 1 / 2")
      case True
      then have "round_half_even y = ?f" by (simp add: round_half_even_def Let_def)
      moreover have "\<not> of_int n - 1 / 2 \<le> y" using True ff by linarith
      ultimately show ?thesis using 2 by simp
    next
      case False
      then have "round_half_even y = ?f + 1" using o by (auto simp: round_half_even_def Let_def)
      moreover have "of_int n - 1 / 2 \<le> y" using False ff by linarith
      ultimately show ?thesis using 2 by simp
    qed
  next
    case 3
    then have "(of_int ?f :: rat) \<le> of_int (n - 2)" by (simp only: of_int_le_iff)
    with f have "\<not> of_int n - 1 / 2 \<le> y" by simp
    moreover have "round_half_even y \<le> ?f + 1" by (auto simp: round_half_even_def Let_def)
    then have "\<not> n \<le> round_half_even y" using 3 by linarith
    ultimately show ?thesis by simp
  qed
qed

lemma round64_pos:
  assumes "0 < x"
  shows "round64 x = of_int (round_half_even (x / 2 powi (max (binade x) (- 1022) - 52)))
                     * 2 powi (max (binade x) (- 1022) - 52)"
  using assms by (simp add: round64_def Let_def)

lemma pow2_split: "(2::rat) powi (e + 1) = 2 ^ 53 * 2 powi (e - 52)"
proof -
  have "e + 1 = 53 + (e - 52)" by simp
  then have "(2::rat) powi (e + 1) = 2 powi (53 + (e - 52))" by (simp only:)
  also have "\<dots> = 2 powi 53 * 2 powi (e - 52)" by (subst power_int_add) simp_all
  also have "(2::rat) powi 53 = 2 ^ 53" by (simp add: power_int_def)
  finally show ?thesis .
qed

lemma pow2_split0: "(2::rat) powi e = 2 ^ 52 * 2 powi (e - 52)"
proof -
  have "e = 52 + (e - 52)" by simp
  then have "(2::rat) powi e = 2 powi (52 + (e - 52))" by (simp only:)
  also have "\<dots> = 2 powi 52 * 2 powi (e - 52)" by (subst power_int_add) simp_all
  also have "(2::rat) powi 52 = 2 ^ 52" by (simp add: power_int_def)
  finally show ?thesis .
qed

text \<open>A positive number below \<open>2^(e+1)\<close> rounds to at most \<open>2^(e+1)\<close>.\<close>

lemma round64_upper:
  assumes "0 < x" and "x < 2 powi (e + 1)" and "- 1022 \<le> e"
  shows "round64 x \<le> 2 powi (e + 1)"
proof -
  let ?ee = "max (binade x) (- 1022)"
  let ?u = "(2::rat) powi (?ee - 52)"
  have u: "0 < ?u" by simp
  have "binade x \<le> e"
  proof (rule ccontr)
    assume "\<not> binade x \<le> e"
    then have "e + 1 \<le> binade x" by simp
    then have "(2::rat) powi (e + 1) \<le> 2 powi binade x" by (intro power_int_increasing) simp_all
    with binade_bounds(1)[OF assms(1)] assms(2) show False by linarith
  qed
  with assms(3) have ee: "?ee \<le> e" by simp
  have "x < 2 powi (binade x + 1)" by (rule binade_bounds(2)[OF assms(1)])
  also have "\<dots> \<le> 2 powi (?ee + 1)" by (intro power_int_increasing) simp_all
  also have "\<dots> = 2 ^ 53 * ?u" by (rule pow2_split)
  finally have "x / ?u < 2 ^ 53" using u by (simp add: field_simps)
  then have "x / ?u \<le> of_int (2 ^ 53)" by simp
  then have "round_half_even (x / ?u) \<le> 2 ^ 53" by (rule round_half_even_le)
  then have "(of_int (round_half_even (x / ?u)) :: rat) \<le> of_int (2 ^ 53)"
    by (simp only: of_int_le_iff)
  then have "of_int (round_half_even (x / ?u)) * ?u \<le> 2 ^ 53 * ?u"
    using u by (simp add: mult_right_mono)
  also have "\<dots> = 2 powi (?ee + 1)" by (rule pow2_split[symmetric])
  also have "\<dots> \<le> 2 powi (e + 1)" using ee by (intro power_int_increasing) simp_all
  finally show ?thesis by (simp only: round64_pos[OF assms(1)])
qed

text \<open>A number that is at least \<open>2^e\<close> rounds to at least \<open>2^e\<close>.\<close>

lemma round64_lower:
  assumes "2 powi e \<le> x" and "- 1022 \<le> e"
  shows "2 powi e \<le> round64 x"
proof -
  have x: "0 < x" using assms(1) zero_less_power_int[of "2::rat" e] by linarith
  let ?ee = "max (binade x) (- 1022)"
  let ?u = "(2::rat) powi (?ee - 52)"
  have u: "0 < ?u" by simp
  have "e \<le> binade x"
  proof (rule ccontr)
    assume "\<not> e \<le> binade x"
    then have "binade x + 1 \<le> e" by simp
    then have "(2::rat) powi (binade x + 1) \<le> 2 powi e" by (intro power_int_increasing) simp_all
    with binade_bounds(2)[OF x] assms(1) show False by linarith
  qed
  with assms(2) have ee: "?ee = binade x" "e \<le> ?ee" by simp_all
  have "2 ^ 52 * ?u = 2 powi ?ee" by (rule pow2_split0[symmetric])
  also have "\<dots> \<le> x" using binade_bounds(1)[OF x] by (simp only: ee(1))
  finally have "of_int (2 ^ 52) \<le> x / ?u" using u by (simp add: field_simps)
  then have "2 ^ 52 \<le> round_half_even (x / ?u)" by (rule round_half_even_ge)
  then have "(of_int (2 ^ 52) :: rat) \<le> of_int (round_half_even (x / ?u))"
    by (simp only: of_int_le_iff)
  then have "2 ^ 52 * ?u \<le> of_int (round_half_even (x / ?u)) * ?u"
    using u by (simp add: mult_right_mono)
  moreover have "(2::rat) powi e \<le> 2 powi ?ee" using ee(2) by (intro power_int_increasing) simp_all
  moreover have "2 ^ 52 * ?u = 2 powi ?ee" by (rule pow2_split0[symmetric])
  ultimately show ?thesis by (simp only: round64_pos[OF x])
qed

lemma round64_nonneg: "0 \<le> x \<Longrightarrow> 0 \<le> round64 x"
proof (cases "x = 0")
  case True
  then show ?thesis by (simp add: round64_def)
next
  case False
  assume "0 \<le> x"
  with False have x: "0 < x" by simp
  let ?u = "(2::rat) powi (max (binade x) (- 1022) - 52)"
  have "(of_int 0 :: rat) \<le> x / ?u" using x by simp
  then have "0 \<le> round_half_even (x / ?u)" by (rule round_half_even_ge)
  then show ?thesis by (simp add: round64_pos[OF x])
qed

text \<open>
  Where the rounding crosses a binary64 value \<open>n * 2^(e-52)\<close> with an even
  significand \<open>n\<close> in \<open>(2^52, 2^53]\<close>: at the midpoint below it, the tie going up.
\<close>

lemma round64_threshold:
  assumes "0 \<le> x" and e: "- 1022 \<le> e" and n: "2 ^ 52 < n" "n \<le> 2 ^ 53" "even n"
  shows "of_int n * 2 powi (e - 52) \<le> round64 x \<longleftrightarrow> (of_int n - 1 / 2) * 2 powi (e - 52) \<le> x"
proof -
  let ?u = "(2::rat) powi (e - 52)"
  have u: "0 < ?u" by simp
  have nlo: "2 powi e < of_int n * ?u"
  proof -
    have "(of_int (2 ^ 52) :: rat) < of_int n" using n(1) by (simp only: of_int_less_iff)
    then have "2 ^ 52 * ?u < of_int n * ?u" using u by simp
    then show ?thesis by (simp only: pow2_split0[symmetric])
  qed
  have nhi: "of_int n * ?u \<le> 2 powi (e + 1)"
  proof -
    have "(of_int n :: rat) \<le> of_int (2 ^ 53)" using n(2) by (simp only: of_int_le_iff)
    then have "of_int n * ?u \<le> 2 ^ 53 * ?u" using u by (simp add: mult_right_mono)
    then show ?thesis by (simp only: pow2_split[symmetric])
  qed
  have mlo: "2 powi e < (of_int n - 1 / 2) * ?u"
  proof -
    have "2 ^ 52 + 1 \<le> n" using n(1) by simp
    then have "(of_int (2 ^ 52 + 1) :: rat) \<le> of_int n" by (simp only: of_int_le_iff)
    then have "(2 ^ 52 :: rat) < of_int n - 1 / 2" by simp
    then have "2 ^ 52 * ?u < (of_int n - 1 / 2) * ?u" using u by simp
    then show ?thesis by (simp only: pow2_split0[symmetric])
  qed
  have mhi: "(of_int n - 1 / 2) * ?u < of_int n * ?u" using u by simp
  show ?thesis
  proof (cases "x = 0")
    case True
    have "0 < (2::rat) powi e" by simp
    with nlo mlo have "\<not> of_int n * ?u \<le> 0" "\<not> (of_int n - 1 / 2) * ?u \<le> 0"
      by linarith+
    with True show ?thesis by (simp add: round64_def)
  next
    case False
    with assms(1) have x: "0 < x" by simp
    let ?ee = "max (binade x) (- 1022)"
    consider "?ee = e" | "e < ?ee" | "?ee < e" by linarith
    then show ?thesis
    proof cases
      case 1
      have "of_int n * ?u \<le> round64 x
            \<longleftrightarrow> of_int n * ?u \<le> of_int (round_half_even (x / ?u)) * ?u"
        by (simp only: round64_pos[OF x] 1)
      also have "\<dots> \<longleftrightarrow> (of_int n :: rat) \<le> of_int (round_half_even (x / ?u))"
        using u by simp
      also have "\<dots> \<longleftrightarrow> n \<le> round_half_even (x / ?u)" by (simp only: of_int_le_iff)
      also have "\<dots> \<longleftrightarrow> of_int n - 1 / 2 \<le> x / ?u" by (rule round_half_even_threshold[OF n(3)])
      also have "\<dots> \<longleftrightarrow> (of_int n - 1 / 2) * ?u \<le> x" using u by (simp add: field_simps)
      finally show ?thesis .
    next
      case 2
      with e have b: "e + 1 \<le> binade x" by simp
      then have "(2::rat) powi (e + 1) \<le> 2 powi binade x" by (intro power_int_increasing) simp_all
      with binade_bounds(1)[OF x] have xx: "2 powi (e + 1) \<le> x" by linarith
      then have "2 powi (e + 1) \<le> round64 x" using e by (intro round64_lower) simp_all
      with nhi mhi xx show ?thesis by linarith
    next
      case 3
      then have b: "binade x + 1 \<le> e" "?ee + 1 \<le> e" by linarith+
      have "x < 2 powi (binade x + 1)" by (rule binade_bounds(2)[OF x])
      also have "\<dots> \<le> 2 powi (?ee + 1)" by (intro power_int_increasing) simp_all
      finally have xe: "x < 2 powi (?ee + 1)" .
      have "round64 x \<le> 2 powi (?ee + 1)" using x xe by (intro round64_upper) simp_all
      moreover have "(2::rat) powi (?ee + 1) \<le> 2 powi e"
        using b(2) by (intro power_int_increasing) simp_all
      ultimately show ?thesis using xe nlo mlo by linarith
    qed
  qed
qed

lemma pow2_values:
  "(2::rat) powi (- 1 - 52) = 1 / 2 ^ 53" "(2::rat) powi (0 - 52) = 1 / 2 ^ 52"
  "(2::rat) powi (1 - 52) = 1 / 2 ^ 51" "(2::rat) powi (2 - 52) = 1 / 2 ^ 50"
  by (simp_all add: power_int_def field_simps)

text \<open>
  The rounding at work: one tenth is not a binary64 value, five halves is, and five
  times the binary64 value nearest to 0.6 is rounded up to 3.
\<close>

lemma round64_examples:
  "round64 (1 / 10) = 3602879701896397 / 2 ^ 55"
  "round64 (5 / 2) = 5 / 2"
  "Number_multiply (5404319552844595 / 2 ^ 53) 5 = 3"
  "round64 (6 / 10) = 5404319552844595 / 2 ^ 53"
  by code_simp+

text \<open>The binary64 value of \<open>x\<close> reaches \<open>k\<close> exactly from the \<open>k\<close>-th threshold on.\<close>

lemma round64_reaches:
  assumes "0 \<le> x"
  shows "1 \<le> round64 x \<longleftrightarrow> 1 - 1 / 2 ^ 54 \<le> x"
    and "2 \<le> round64 x \<longleftrightarrow> 2 - 1 / 2 ^ 53 \<le> x"
    and "3 \<le> round64 x \<longleftrightarrow> 3 - 1 / 2 ^ 52 \<le> x"
    and "4 \<le> round64 x \<longleftrightarrow> 4 - 1 / 2 ^ 52 \<le> x"
    and "5 \<le> round64 x \<longleftrightarrow> 5 - 1 / 2 ^ 51 \<le> x"
proof -
  show "1 \<le> round64 x \<longleftrightarrow> 1 - 1 / 2 ^ 54 \<le> x"
    using round64_threshold[OF assms, of "- 1" "2 ^ 53"] by (simp add: pow2_values)
  show "2 \<le> round64 x \<longleftrightarrow> 2 - 1 / 2 ^ 53 \<le> x"
    using round64_threshold[OF assms, of 0 "2 ^ 53"] by (simp add: pow2_values)
  show "3 \<le> round64 x \<longleftrightarrow> 3 - 1 / 2 ^ 52 \<le> x"
    using round64_threshold[OF assms, of 1 "3 * 2 ^ 51"] by (simp add: pow2_values)
  show "4 \<le> round64 x \<longleftrightarrow> 4 - 1 / 2 ^ 52 \<le> x"
    using round64_threshold[OF assms, of 1 "2 ^ 53"] by (simp add: pow2_values)
  show "5 \<le> round64 x \<longleftrightarrow> 5 - 1 / 2 ^ 51 \<le> x"
    using round64_threshold[OF assms, of 2 "5 * 2 ^ 50"] by (simp add: pow2_values)
qed


section \<open>Properties of the category and the prompt\<close>

lemma categories_facts: "length categories = 5" "distinct categories"
  by (simp_all add: categories_def js_def)

lemma floor_round64:
  assumes "0 \<le> x" and "k < 5"
  shows "\<lfloor>round64 x\<rfloor> = int k \<longleftrightarrow> thresholds ! k \<le> x \<and> x < thresholds ! Suc k"
proof -
  note r = round64_reaches[OF assms(1)] round64_nonneg[OF assms(1)]
  from assms(2) consider "k = 0" | "k = 1" | "k = 2" | "k = 3" | "k = 4" by linarith
  then show ?thesis
  proof cases
    case 1
    then show ?thesis using r assms(1) by (simp add: floor_eq_iff thresholds_def not_le[symmetric])
  next
    case 2
    then show ?thesis using r by (simp add: floor_eq_iff thresholds_def not_le[symmetric])
  next
    case 3
    then show ?thesis using r by (simp add: floor_eq_iff thresholds_def not_le[symmetric])
  next
    case 4
    then show ?thesis using r by (simp add: floor_eq_iff thresholds_def not_le[symmetric])
  next
    case 5
    then show ?thesis using r by (simp add: floor_eq_iff thresholds_def not_le[symmetric])
  qed
qed

lemma selectedCategory_random:
  assumes "0 \<le> randoms w (draws w)" and "randoms w (draws w) \<le> 1 - 1 / 2 ^ 53"
  shows "fst (selectedCategory (js ''random'') w)
         = Some (categories ! nat \<lfloor>round64 (randoms w (draws w) * 5)\<rfloor>)"
    and "0 \<le> \<lfloor>round64 (randoms w (draws w) * 5)\<rfloor>"
    and "nat \<lfloor>round64 (randoms w (draws w) * 5)\<rfloor> < 5"
proof -
  let ?x = "randoms w (draws w) * 5"
  have x: "0 \<le> ?x" using assms(1) by simp
  have "?x < 5 - 1 / 2 ^ 51" using assms(2) by simp
  then have "\<not> 5 \<le> round64 ?x" using round64_reaches(5)[OF x] by simp
  then have hi: "\<lfloor>round64 ?x\<rfloor> < 5" by (simp add: floor_less_iff)
  show lo: "0 \<le> \<lfloor>round64 ?x\<rfloor>" using round64_nonneg[OF x] by simp
  from lo hi show n: "nat \<lfloor>round64 ?x\<rfloor> < 5" by linarith
  with lo show "fst (selectedCategory (js ''random'') w) = Some (categories ! nat \<lfloor>round64 ?x\<rfloor>)"
    by (simp add: selectedCategory_def Math_random_def Number_multiply_def categories_facts Let_def)
qed

lemma selectedCategory_world:
  "requests (snd (selectedCategory c w)) = requests w"
  "upstream (snd (selectedCategory c w)) = upstream w"
  by (simp_all add: selectedCategory_def Math_random_def Let_def)

lemma takeWhile_upt:
  assumes "k < length (takeWhile Q [0..<n])"
  shows "Q k"
proof -
  have "takeWhile Q [0..<n] ! k \<in> set (takeWhile Q [0..<n])" using assms by simp
  then have "Q (takeWhile Q [0..<n] ! k)" by (rule set_takeWhileD[THEN conjunct2])
  moreover have "takeWhile Q [0..<n] ! k = [0..<n] ! k" using assms by (rule takeWhile_nth)
  moreover have "k < n" using assms length_takeWhile_le[of Q "[0..<n]"] by simp
  ultimately show ?thesis by simp
qed

lemma try_models_requests:
  "requests (snd (try_models P pr ms w))
   = requests w @ map (\<lambda>m. (m, pr)) (take (attempts P w pr ms) ms)"
proof -
  let ?Q = "\<lambda>k. entry_fails P (upstream w (length (requests w) + k) (ms ! k) pr)"
  let ?n = "length (takeWhile ?Q [0..<length ms])"
  have le: "?n \<le> length ms" using length_takeWhile_le[of ?Q "[0..<length ms]"] by simp
  have fails: "\<forall>k<?n. ?Q k" using takeWhile_upt[of _ ?Q "length ms"] by blast
  show ?thesis
  proof (cases "?n = length ms")
    case True
    then have "\<forall>k<length ms. ?Q k" using fails by simp
    from try_models_all_fail[OF this] True show ?thesis by (simp add: attempts_def)
  next
    case False
    with le have lt: "?n < length ms" by simp
    let ?fs = "take ?n ms"
    let ?m = "ms ! ?n"
    let ?rest = "drop (Suc ?n) ms"
    let ?w1 = "snd (try_models P pr ?fs w)"
    have ms: "ms = ?fs @ ?m # ?rest" using lt by (simp add: id_take_nth_drop)
    have f: "\<forall>k<length ?fs. entry_fails P (upstream w (length (requests w) + k) (?fs ! k) pr)"
      using fails lt by simp
    note a = try_models_all_fail[OF f]
    have "\<not> ?Q ([0..<length ms] ! ?n)"
      using lt by (intro nth_length_takeWhile) simp
    then have "\<not> ?Q ?n" using lt by simp
    then have "\<not> entry_fails P (upstream ?w1 (length (requests ?w1)) ?m pr)"
      using a lt by (simp add: min_def)
    then obtain xs where "entry_articles P (upstream ?w1 (length (requests ?w1)) ?m pr) = Some xs"
      by (auto simp: entry_dichotomy)
    note r = attempt_returns[OF this]
    have "try_models P pr (?fs @ ?m # ?rest) w = try_models P pr (?m # ?rest) ?w1"
      by (rule try_models_append[OF f])
    moreover have "snd (try_models P pr (?m # ?rest) ?w1) = snd (attempt P pr ?m ?w1)"
      using r(1) by (cases "attempt P pr ?m ?w1") simp
    ultimately have "requests (snd (try_models P pr (?fs @ ?m # ?rest) w))
        = requests w @ map (\<lambda>m. (m, pr)) (?fs @ [?m])"
      using r(2) a by simp
    moreover have "take (attempts P w pr ms) ms = ?fs @ [?m]"
      using lt by (simp add: attempts_def take_Suc_conv_app_nth min_def)
    ultimately show ?thesis using ms by metis
  qed
qed

text \<open>
  C9. The random number is a binary64 value of \<open>[0, 1)\<close>, so it is at most
  \<open>1 - 2^-53\<close>. With the sentinel \<open>random\<close> the selected category is then one of
  the five fixed ones, never \<open>undefined\<close>, and it is the \<open>k\<close>-th of them exactly when
  \<open>r * 5\<close> lies between the \<open>k\<close>-th threshold and the next one; the thresholds are
  within \<open>2^-51\<close> of 0, 1, ..., 5, so the five preimages have the same length up to
  the rounding of the product, and a uniform random number selects uniformly up to
  that. Any other category is used verbatim and the world is left alone. With a key
  configured, the calls the handler makes are one for each entry of the model list
  up to and including the first that does not fail, and every one of them carries
  one and the same prompt, built from the count and the category selected before
  the loop.
\<close>

theorem category_resolution:
  "(0 \<le> randoms w (draws w) \<and> randoms w (draws w) \<le> 1 - 1 / 2 ^ 53 \<longrightarrow>
      (\<exists>c\<in>set categories. fst (selectedCategory (js ''random'') w) = Some c)
      \<and> (\<forall>k<length categories.
            fst (selectedCategory (js ''random'') w) = Some (categories ! k)
            \<longleftrightarrow> thresholds ! k \<le> randoms w (draws w) * 5
                \<and> randoms w (draws w) * 5 < thresholds ! Suc k))
   \<and> length categories = 5
   \<and> (\<forall>k<6. \<bar>thresholds ! k - of_nat k\<bar> \<le> 1 / 2 ^ 51)
   \<and> (category \<noteq> js ''random'' \<longrightarrow> selectedCategory category w = (Some category, w))
   \<and> (GEMINI_API_KEY \<noteq> None \<and> GEMINI_API_KEY \<noteq> Some [] \<longrightarrow>
        requests (snd (generate_news P ms GEMINI_API_KEY req w))
        = requests w @
          map (\<lambda>m. (m, prompt (Number_toString P (case req_count req of None \<Rightarrow> 3 | Some c \<Rightarrow> c))
                               (category_text (fst (selectedCategory (req_category req) w)))))
              (take (attempts P w
                       (prompt (Number_toString P (case req_count req of None \<Rightarrow> 3 | Some c \<Rightarrow> c))
                               (category_text (fst (selectedCategory (req_category req) w))))
                       ms)
                    ms))"
proof (intro conjI impI)
  assume r: "0 \<le> randoms w (draws w) \<and> randoms w (draws w) \<le> 1 - 1 / 2 ^ 53"
  let ?x = "randoms w (draws w) * 5"
  from r have s: "fst (selectedCategory (js ''random'') w) = Some (categories ! nat \<lfloor>round64 ?x\<rfloor>)"
    and lo: "0 \<le> \<lfloor>round64 ?x\<rfloor>" and hi: "nat \<lfloor>round64 ?x\<rfloor> < 5"
    using selectedCategory_random[of w] by blast+
  from s hi show "\<exists>c\<in>set categories. fst (selectedCategory (js ''random'') w) = Some c"
    by (auto simp: categories_facts intro!: bexI[of _ "categories ! nat \<lfloor>round64 ?x\<rfloor>"])
  show "\<forall>k<length categories.
            fst (selectedCategory (js ''random'') w) = Some (categories ! k)
            \<longleftrightarrow> thresholds ! k \<le> ?x \<and> ?x < thresholds ! Suc k"
  proof (intro allI impI)
    fix k assume k: "k < length categories"
    then have k5: "k < 5" by (simp add: categories_facts)
    have x: "0 \<le> ?x" using r by simp
    have "fst (selectedCategory (js ''random'') w) = Some (categories ! k)
          \<longleftrightarrow> categories ! nat \<lfloor>round64 ?x\<rfloor> = categories ! k"
      using s by simp
    also have "\<dots> \<longleftrightarrow> nat \<lfloor>round64 ?x\<rfloor> = k"
      using hi k categories_facts by (simp add: nth_eq_iff_index_eq)
    also have "\<dots> \<longleftrightarrow> \<lfloor>round64 ?x\<rfloor> = int k" using lo by linarith
    also have "\<dots> \<longleftrightarrow> thresholds ! k \<le> ?x \<and> ?x < thresholds ! Suc k"
      by (rule floor_round64[OF x k5])
    finally show "fst (selectedCategory (js ''random'') w) = Some (categories ! k)
            \<longleftrightarrow> thresholds ! k \<le> ?x \<and> ?x < thresholds ! Suc k" .
  qed
next
  show "length categories = 5" by (rule categories_facts)
next
  show "\<forall>k<6. \<bar>thresholds ! k - of_nat k\<bar> \<le> 1 / 2 ^ 51"
  proof (intro allI impI)
    fix k :: nat assume "k < 6"
    then consider "k = 0" | "k = 1" | "k = 2" | "k = 3" | "k = 4" | "k = 5" by linarith
    then show "\<bar>thresholds ! k - of_nat k\<bar> \<le> 1 / 2 ^ 51"
      by cases (simp_all add: thresholds_def)
  qed
next
  assume "category \<noteq> js ''random''"
  then show "selectedCategory category w = (Some category, w)"
    by (simp add: selectedCategory_def)
next
  assume key: "GEMINI_API_KEY \<noteq> None \<and> GEMINI_API_KEY \<noteq> Some []"
  let ?pr = "prompt (Number_toString P (case req_count req of None \<Rightarrow> 3 | Some c \<Rightarrow> c))
               (category_text (fst (selectedCategory (req_category req) w)))"
  let ?w1 = "snd (selectedCategory (req_category req) w)"
  have g: "generate_news P ms GEMINI_API_KEY req w = try_models P ?pr ms ?w1"
    using key by (auto simp: generate_news_def case_prod_beta Let_def)
  have "attempts P ?w1 ?pr ms = attempts P w ?pr ms"
    by (simp add: attempts_def selectedCategory_world)
  with try_models_requests[of P ?pr ms ?w1]
  show "requests (snd (generate_news P ms GEMINI_API_KEY req w))
        = requests w @ map (\<lambda>m. (m, ?pr)) (take (attempts P w ?pr ms) ms)"
    by (simp add: g selectedCategory_world)
qed

theorem category_resolution_witness:
  "0 \<le> randoms (scripted [Rejected TypeError, Response True (Inr (reply (js ''[]'')))])
          (draws (scripted [Rejected TypeError, Response True (Inr (reply (js ''[]'')))]))
   \<and> randoms (scripted [Rejected TypeError, Response True (Inr (reply (js ''[]'')))])
          (draws (scripted [Rejected TypeError, Response True (Inr (reply (js ''[]'')))]))
       \<le> 1 - 1 / 2 ^ 53
   \<and> fst (selectedCategory (js ''random'')
            (scripted [Rejected TypeError, Response True (Inr (reply (js ''[]'')))]))
       = Some (js ''lifestyle'')
   \<and> fst (selectedCategory (js ''random'')
            ((scripted [])\<lparr>randoms := \<lambda>k. 5404319552844595 / 2 ^ 53\<rparr>))
       = Some (js ''business'')
   \<and> js ''cricket'' \<noteq> js ''random''
   \<and> selectedCategory (js ''cricket'') (scripted []) = (Some (js ''cricket''), scripted [])
   \<and> Some (js ''key'') \<noteq> None \<and> Some (js ''key'') \<noteq> Some []
   \<and> requests (snd (generate_news ref_platform models (Some (js ''key''))
                       \<lparr>req_category = js ''random'', req_count = None\<rparr>
                       (scripted [Rejected TypeError, Response True (Inr (reply (js ''[]'')))])))
       = [(js ''gemini-2.5-flash'', prompt (Number_toString ref_platform 3) (js ''lifestyle'')),
          (js ''gemini-2.0-flash'', prompt (Number_toString ref_platform 3) (js ''lifestyle''))]"
proof -
  let ?ok = "Response True (Inr (reply (js ''[]'')))"
  let ?w = "scripted [Rejected TypeError, ?ok]"
  let ?v = "(scripted [])\<lparr>randoms := \<lambda>k. 5404319552844595 / 2 ^ 53\<rparr>"
  let ?req = "\<lparr>req_category = js ''random'', req_count = None\<rparr>"
  let ?pr = "prompt (Number_toString ref_platform 3) (js ''lifestyle'')"
  note t = category_resolution[of ?w "js ''cricket''" "Some (js ''key'')" ref_platform models ?req]
  note u = category_resolution[of ?v "js ''cricket''" "Some (js ''key'')" ref_platform models ?req]
  note z = category_resolution[of "scripted []" "js ''cricket''" "Some (js ''key'')" ref_platform models ?req]
  have r: "0 \<le> randoms ?w (draws ?w) \<and> randoms ?w (draws ?w) \<le> 1 - 1 / 2 ^ 53"
    by (simp add: scripted_def)
  have r': "0 \<le> randoms ?v (draws ?v) \<and> randoms ?v (draws ?v) \<le> 1 - 1 / 2 ^ 53"
    by (simp add: scripted_def)
  have c: "js ''cricket'' \<noteq> js ''random''" by (simp add: js_def)
  have k: "Some (js ''key'') \<noteq> None \<and> Some (js ''key'') \<noteq> Some []" by (simp add: js_def)
  from t r have "\<forall>k<length categories.
            fst (selectedCategory (js ''random'') ?w) = Some (categories ! k)
            \<longleftrightarrow> thresholds ! k \<le> randoms ?w (draws ?w) * 5
                \<and> randoms ?w (draws ?w) * 5 < thresholds ! Suc k"
    by blast
  moreover have "(2::nat) < length categories" by (simp add: categories_def)
  ultimately have "fst (selectedCategory (js ''random'') ?w) = Some (categories ! 2)
            \<longleftrightarrow> thresholds ! 2 \<le> randoms ?w (draws ?w) * 5
                \<and> randoms ?w (draws ?w) * 5 < thresholds ! Suc 2"
    by blast
  then have s: "fst (selectedCategory (js ''random'') ?w) = Some (js ''lifestyle'')"
    by (simp add: scripted_def categories_def thresholds_def)
  from u r' have "\<forall>k<length categories.
            fst (selectedCategory (js ''random'') ?v) = Some (categories ! k)
            \<longleftrightarrow> thresholds ! k \<le> randoms ?v (draws ?v) * 5
                \<and> randoms ?v (draws ?v) * 5 < thresholds ! Suc k"
    by blast
  moreover have "(3::nat) < length categories" by (simp add: categories_def)
  ultimately have "fst (selectedCategory (js ''random'') ?v) = Some (categories ! 3)
            \<longleftrightarrow> thresholds ! 3 \<le> randoms ?v (draws ?v) * 5
                \<and> randoms ?v (draws ?v) * 5 < thresholds ! Suc 3"
    by blast
  then have s': "fst (selectedCategory (js ''random'') ?v) = Some (js ''business'')"
    by (simp add: scripted_def categories_def thresholds_def)
  from z c have v: "selectedCategory (js ''cricket'') (scripted []) = (Some (js ''cricket''), scripted [])"
    by blast
  have "json_parse (js ''[]'') = Some (JArr [])" by code_simp
  moreover have "jsonText (js ''[]'') = js ''[]''"
    by (simp add: jsonText_def jsonMatch_def fence_consts js_def)
  ultimately have "text_articles ref_platform (reply (js ''[]'')) = Some []"
    by (simp add: text_articles_def generatedText_of_reply parse_articles_def ref_platform_def)
  then have e: "entry_fails ref_platform (Rejected TypeError)" "\<not> entry_fails ref_platform ?ok"
    by (simp_all add: entry_fails_def)
  have up: "[0..<length models] = [0, 1, 2, 3, 4, 5]" by (simp add: models_def upt_rec)
  have a: "attempts ref_platform ?w ?pr models = 2"
    unfolding attempts_def up by (simp add: scripted_def e models_def)
  from t k have "requests (snd (generate_news ref_platform models (Some (js ''key'')) ?req ?w))
        = requests ?w @
          map (\<lambda>m. (m, prompt (Number_toString ref_platform (case req_count ?req of None \<Rightarrow> 3 | Some c \<Rightarrow> c))
                               (category_text (fst (selectedCategory (req_category ?req) ?w)))))
              (take (attempts ref_platform ?w
                       (prompt (Number_toString ref_platform (case req_count ?req of None \<Rightarrow> 3 | Some c \<Rightarrow> c))
                               (category_text (fst (selectedCategory (req_category ?req) ?w))))
                       models)
                    models)"
    by blast
  then have g: "requests (snd (generate_news ref_platform models (Some (js ''key'')) ?req ?w))
       = [(js ''gemini-2.5-flash'', ?pr), (js ''gemini-2.0-flash'', ?pr)]"
    using s a by (simp add: category_text_def) (simp add: scripted_def models_def)
  from r c k s s' v g show ?thesis by (simp only: simp_thms)
qed

end
